theory Spec2Isabelle
  imports Main
begin

section \<open>The backport client of assets/backport/github/github.go\<close>

text \<open>
  The client replays commits on a branch of a hosted repository through the remote
  API of the go-github library alone. The embedding keeps the Go functions one to one;
  the remote is a parameter (a record of the seven API endpoints the client calls, over
  an arbitrary world type), and every call the client makes is appended to a log
  together with its reply and the world it left, so that theorems can speak about the
  order of the calls and about every intermediate state of the remote.

  Conventions: a Go pointer field that may be nil is an \<open>option\<close>; a nil dereference
  and an index out of range are the outcome \<open>Panic\<close>; a returned error is \<open>Err\<close>.
  Pointers passed as parameters and as slice elements are taken to be non-nil.
  The arguments \<open>ctx\<close>, \<open>organization\<close> and \<open>repository\<close> are passed through
  unchanged everywhere and are left out.
\<close>

subsection \<open>go-github types\<close>

text \<open>A tree is referred to by its SHA only.\<close>

type_synonym Tree = string

text \<open>\<open>go_github.Commit\<close>: the fields the client reads or writes.\<close>

datatype Commit =
  Commit (SHA: "string option") (Message: "string option") (Tree: "Tree option")
         (Parents: "Commit list")

text \<open>\<open>go_github.RepositoryCommit\<close>: only its SHA is used.\<close>

datatype RepositoryCommit = RepositoryCommit (RepoSHA: "string option")

text \<open>\<open>go_github.Branch\<close>; \<open>HeadCommit\<close> is the Go field \<open>Commit\<close>.\<close>

datatype Branch = Branch (Name: "string option") (HeadCommit: "RepositoryCommit option")

text \<open>The nil-safe getters of go-github.\<close>

definition GetSHA :: "Commit \<Rightarrow> string" where
  "GetSHA c = (case SHA c of None \<Rightarrow> [] | Some s \<Rightarrow> s)"

definition GetTree :: "Commit \<Rightarrow> Tree option" where
  "GetTree c = Tree c"

definition RepoGetSHA :: "RepositoryCommit \<Rightarrow> string" where
  "RepoGetSHA c = (case RepoSHA c of None \<Rightarrow> [] | Some s \<Rightarrow> s)"

subsection \<open>Errors and panics\<close>

text \<open>
  \<open>NotFound\<close> and \<open>Errorf\<close> are the errors the client itself makes
  (\<open>trace.NotFound\<close>, \<open>trace.Errorf\<close>); \<open>ApiError\<close> is an error reported by the
  remote. \<open>trace.Wrap\<close> adds the call site to an error and leaves its kind and its
  message as they are: the embedding keeps the call and models it as the identity.
\<close>

datatype error = NotFound string | Errorf string | ApiError string

datatype panic = NilPointerDereference | IndexOutOfRange

datatype 'a result = Ok 'a | Err error | Panic panic

definition Wrap :: "error \<Rightarrow> error" where
  "Wrap err = err"

text \<open>Go's slice indexing, which panics out of range: the index as an option.\<close>

definition index :: "'a list \<Rightarrow> nat \<Rightarrow> 'a option" where
  "index xs i = (if i < length xs then Some (xs ! i) else None)"

subsection \<open>The remote API and the log of calls\<close>

text \<open>
  The endpoints of go-github the client calls, as functions on a world \<open>'w\<close>:
  \<open>Git.GetCommit\<close>, \<open>Git.CreateCommit\<close>, \<open>Git.UpdateRef\<close> (reference name, SHA,
  force), \<open>Git.DeleteRef\<close>, \<open>Repositories.Merge\<close> (base, head),
  \<open>Repositories.CompareCommits\<close> (base, head) and \<open>Repositories.ListCommits\<close>
  (SHA or branch, page, per page; the reply carries the next page, 0 for none).
\<close>

record 'w api =
  GetCommit :: "string \<Rightarrow> 'w \<Rightarrow> Commit result \<times> 'w"
  CreateCommit :: "Commit \<Rightarrow> 'w \<Rightarrow> Commit result \<times> 'w"
  UpdateRef :: "string \<Rightarrow> string \<Rightarrow> bool \<Rightarrow> 'w \<Rightarrow> unit result \<times> 'w"
  DeleteRef :: "string \<Rightarrow> 'w \<Rightarrow> unit result \<times> 'w"
  Merge :: "string \<Rightarrow> string \<Rightarrow> 'w \<Rightarrow> RepositoryCommit result \<times> 'w"
  CompareCommits :: "string \<Rightarrow> string \<Rightarrow> 'w \<Rightarrow> RepositoryCommit list result \<times> 'w"
  ListCommits :: "string \<Rightarrow> nat \<Rightarrow> nat \<Rightarrow> 'w \<Rightarrow> (RepositoryCommit list \<times> nat) result \<times> 'w"

datatype request =
    GetCommitReq string
  | CreateCommitReq Commit
  | UpdateRefReq string string bool
  | DeleteRefReq string
  | MergeReq string string
  | CompareCommitsReq string string
  | ListCommitsReq string nat nat

datatype reply =
    Failed error
  | Crashed panic
  | GotCommit Commit
  | GotRepositoryCommit RepositoryCommit
  | GotComparison "RepositoryCommit list"
  | GotPage "RepositoryCommit list" nat
  | Done

text \<open>An event: the request, its reply, and the world after the call.\<close>

type_synonym 'w event = "request \<times> reply \<times> 'w"

text \<open>The state the client runs in: the remote's world and the calls made so far.\<close>

type_synonym 'w session = "'w \<times> 'w event list"

definition perform ::
  "request \<Rightarrow> ('a \<Rightarrow> reply) \<Rightarrow> ('w \<Rightarrow> 'a result \<times> 'w) \<Rightarrow> 'w session \<Rightarrow> 'a result \<times> 'w session" where
  "perform rq enc f s =
     (case f (fst s) of
        (r, w') \<Rightarrow>
          (r, (w', snd s @ [(rq, (case r of Ok v \<Rightarrow> enc v | Err e \<Rightarrow> Failed e | Panic p \<Rightarrow> Crashed p), w')])))"

definition Git_GetCommit :: "'w api \<Rightarrow> string \<Rightarrow> 'w session \<Rightarrow> Commit result \<times> 'w session" where
  "Git_GetCommit c sha = perform (GetCommitReq sha) GotCommit (GetCommit c sha)"

definition Git_CreateCommit :: "'w api \<Rightarrow> Commit \<Rightarrow> 'w session \<Rightarrow> Commit result \<times> 'w session" where
  "Git_CreateCommit c commit = perform (CreateCommitReq commit) GotCommit (CreateCommit c commit)"

definition Git_UpdateRef ::
  "'w api \<Rightarrow> string \<Rightarrow> string \<Rightarrow> bool \<Rightarrow> 'w session \<Rightarrow> unit result \<times> 'w session" where
  "Git_UpdateRef c ref sha force =
     perform (UpdateRefReq ref sha force) (\<lambda>_. Done) (UpdateRef c ref sha force)"

definition Git_DeleteRef :: "'w api \<Rightarrow> string \<Rightarrow> 'w session \<Rightarrow> unit result \<times> 'w session" where
  "Git_DeleteRef c ref = perform (DeleteRefReq ref) (\<lambda>_. Done) (DeleteRef c ref)"

definition Repositories_Merge ::
  "'w api \<Rightarrow> string \<Rightarrow> string \<Rightarrow> 'w session \<Rightarrow> RepositoryCommit result \<times> 'w session" where
  "Repositories_Merge c base head =
     perform (MergeReq base head) GotRepositoryCommit (Merge c base head)"

definition Repositories_CompareCommits ::
  "'w api \<Rightarrow> string \<Rightarrow> string \<Rightarrow> 'w session \<Rightarrow> RepositoryCommit list result \<times> 'w session" where
  "Repositories_CompareCommits c base head =
     perform (CompareCommitsReq base head) GotComparison (CompareCommits c base head)"

definition Repositories_ListCommits ::
  "'w api \<Rightarrow> string \<Rightarrow> nat \<Rightarrow> nat \<Rightarrow> 'w session \<Rightarrow> (RepositoryCommit list \<times> nat) result \<times> 'w session" where
  "Repositories_ListCommits c sha page per =
     perform (ListCommitsReq sha page per) (\<lambda>(cs, n). GotPage cs n) (ListCommits c sha page per)"

subsection \<open>The client\<close>

definition perPage :: nat where
  "perPage = 100"

definition branchRefPrefix :: string where
  "branchRefPrefix = ''refs/heads/''"

text \<open>\<open>updateBranch\<close> updates a branch.\<close>

definition updateBranch :: "'w api \<Rightarrow> string \<Rightarrow> string \<Rightarrow> 'w session \<Rightarrow> unit result \<times> 'w session" where
  "updateBranch c branchName sha s =
     (let refName = branchRefPrefix @ branchName in
      case Git_UpdateRef c refName sha True s of
        (Err err, s') \<Rightarrow> (Err (Wrap err), s')
      | (Panic p, s') \<Rightarrow> (Panic p, s')
      | (Ok _, s') \<Rightarrow> (Ok (), s'))"

text \<open>\<open>createCommit\<close> creates a new commit and returns its SHA.\<close>

definition createCommit ::
  "'w api \<Rightarrow> string \<Rightarrow> Tree option \<Rightarrow> Commit \<Rightarrow> 'w session \<Rightarrow> string result \<times> 'w session" where
  "createCommit c commitMessage tree parent s =
     (case Git_CreateCommit c (Commit None (Some commitMessage) tree [parent]) s of
        (Err err, s') \<Rightarrow> (Err (Wrap err), s')
      | (Panic p, s') \<Rightarrow> (Panic p, s')
      | (Ok commit, s') \<Rightarrow> (Ok (GetSHA commit), s'))"

text \<open>\<open>getCommit\<close> gets a commit.\<close>

definition getCommit :: "'w api \<Rightarrow> string \<Rightarrow> 'w session \<Rightarrow> Commit result \<times> 'w session" where
  "getCommit c sha s =
     (case Git_GetCommit c sha s of
        (Err err, s') \<Rightarrow> (Err (Wrap err), s')
      | (Panic p, s') \<Rightarrow> (Panic p, s')
      | (Ok commit, s') \<Rightarrow> (Ok commit, s'))"

text \<open>\<open>merge\<close> merges a branch and reads the merge commit back.\<close>

definition merge :: "'w api \<Rightarrow> string \<Rightarrow> string \<Rightarrow> 'w session \<Rightarrow> Commit result \<times> 'w session" where
  "merge c base headCommitSHA s =
     (case Repositories_Merge c base headCommitSHA s of
        (Err err, s') \<Rightarrow> (Err (Wrap err), s')
      | (Panic p, s') \<Rightarrow> (Panic p, s')
      | (Ok mrg, s') \<Rightarrow>
          (case getCommit c (RepoGetSHA mrg) s' of
             (Err err, s'') \<Rightarrow> (Err (Wrap err), s'')
           | (Panic p, s'') \<Rightarrow> (Panic p, s'')
           | (Ok mergeCommit, s'') \<Rightarrow> (Ok mergeCommit, s'')))"

text \<open>\<open>deleteBranch\<close> deletes a branch.\<close>

definition deleteBranch :: "'w api \<Rightarrow> string \<Rightarrow> 'w session \<Rightarrow> unit result \<times> 'w session" where
  "deleteBranch c branchName s =
     (let refName = branchRefPrefix @ branchName in
      case Git_DeleteRef c refName s of
        (Err err, s') \<Rightarrow> (Err (Wrap err), s')
      | (Panic p, s') \<Rightarrow> (Panic p, s')
      | (Ok _, s') \<Rightarrow> (Ok (), s'))"

text \<open>
  \<open>createSiblingCommit\<close> creates a commit with the passed in commit's tree and parent
  and updates the passed in branch to point at that commit.
\<close>

definition createSiblingCommit ::
  "'w api \<Rightarrow> string \<Rightarrow> Commit \<Rightarrow> Commit \<Rightarrow> 'w session \<Rightarrow> unit result \<times> 'w session" where
  "createSiblingCommit c branchName branchHeadCommit cherryParent s =
     (let tree = GetTree branchHeadCommit in
      case createCommit c ''temp'' tree cherryParent s of
        (Err err, s1) \<Rightarrow> (Err (Wrap err), s1)
      | (Panic p, s1) \<Rightarrow> (Panic p, s1)
      | (Ok commitSHA, s1) \<Rightarrow>
          (case updateBranch c branchName commitSHA s1 of
             (Err err, s2) \<Rightarrow> (Err (Wrap err), s2)
           | (Panic p, s2) \<Rightarrow> (Panic p, s2)
           | (Ok _, s2) \<Rightarrow> (Ok (), s2)))"

text \<open>
  \<open>cherryPickCommit\<close> cherry picks a single commit on a branch. The dereferences
  \<open>*cherryCommit.SHA\<close>, \<open>*headBranchCommit.SHA\<close> and \<open>*cherryCommit.Message\<close>
  happen where the Go evaluates them: as the arguments of the call they feed.
\<close>

definition cherryPickCommit ::
  "'w api \<Rightarrow> string \<Rightarrow> Commit \<Rightarrow> Commit \<Rightarrow> 'w session \<Rightarrow> (Tree option \<times> string) result \<times> 'w session" where
  "cherryPickCommit c branchName cherryCommit headBranchCommit s =
     (case index (Parents cherryCommit) 0 of
        None \<Rightarrow> (Panic IndexOutOfRange, s)
      | Some cherryParent \<Rightarrow>
     (case createSiblingCommit c branchName headBranchCommit cherryParent s of
        (Err err, s1) \<Rightarrow> (Err (Wrap err), s1)
      | (Panic p, s1) \<Rightarrow> (Panic p, s1)
      | (Ok _, s1) \<Rightarrow>
     (case SHA cherryCommit of
        None \<Rightarrow> (Panic NilPointerDereference, s1)
      | Some cherrySHA \<Rightarrow>
     (case merge c branchName cherrySHA s1 of
        (Err err, s2) \<Rightarrow> (Err (Wrap err), s2)
      | (Panic p, s2) \<Rightarrow> (Panic p, s2)
      | (Ok mrg, s2) \<Rightarrow>
     (let mergeTree = GetTree mrg in
      case SHA headBranchCommit of
        None \<Rightarrow> (Panic NilPointerDereference, s2)
      | Some headSHA \<Rightarrow>
     (case getCommit c headSHA s2 of
        (Err err, s3) \<Rightarrow> (Err (Wrap err), s3)
      | (Panic p, s3) \<Rightarrow> (Panic p, s3)
      | (Ok updatedCommit, s3) \<Rightarrow>
     (case Message cherryCommit of
        None \<Rightarrow> (Panic NilPointerDereference, s3)
      | Some message \<Rightarrow>
     (case createCommit c message mergeTree updatedCommit s3 of
        (Err err, s4) \<Rightarrow> (Err (Wrap err), s4)
      | (Panic p, s4) \<Rightarrow> (Panic p, s4)
      | (Ok sha, s4) \<Rightarrow>
     (case updateBranch c branchName sha s4 of
        (Err err, s5) \<Rightarrow> (Err (Wrap err), s5)
      | (Panic p, s5) \<Rightarrow> (Panic p, s5)
      | (Ok _, s5) \<Rightarrow> (Ok (mergeTree, sha), s5))))))))))"

text \<open>
  The loop of \<open>CherryPickCommitsOnBranch\<close> over \<open>commits\<close>, with the local
  \<open>headCommit\<close> it updates (\<open>headCommit.SHA = &sha\<close>, \<open>headCommit.Tree = tree\<close>);
  it returns the last \<open>headCommit\<close>. On an error of a step the deferred
  \<open>deleteBranch\<close> runs when the function returns: its own error is dropped, a panic
  of it is not. A panic of a step unwinds with nothing deferred.
\<close>

fun cherryPickLoop ::
  "'w api \<Rightarrow> string \<Rightarrow> Commit list \<Rightarrow> Commit \<Rightarrow> 'w session \<Rightarrow> Commit result \<times> 'w session" where
  "cherryPickLoop c branchName [] headCommit s = (Ok headCommit, s)"
| "cherryPickLoop c branchName (commit # commits) headCommit s =
     (case cherryPickCommit c branchName commit headCommit s of
        (Err err, s1) \<Rightarrow>
          (case deleteBranch c branchName s1 of
             (Panic p, s2) \<Rightarrow> (Panic p, s2)
           | (_, s2) \<Rightarrow> (Err (Wrap err), s2))
      | (Panic p, s1) \<Rightarrow> (Panic p, s1)
      | (Ok (tree, sha), s1) \<Rightarrow>
          cherryPickLoop c branchName commits
            (Commit (Some sha) (Message headCommit) tree (Parents headCommit)) s1)"

text \<open>\<open>CherryPickCommitsOnBranch\<close> cherry picks a list of commits on a given branch.\<close>

definition CherryPickCommitsOnBranch ::
  "'w api \<Rightarrow> Branch \<Rightarrow> Commit list \<Rightarrow> 'w session \<Rightarrow> unit result \<times> 'w session" where
  "CherryPickCommitsOnBranch c branch commits s =
     (case Name branch of
        None \<Rightarrow> (Err (NotFound ''branch name does not exist.''), s)
      | Some branchName \<Rightarrow>
     (case HeadCommit branch of
        None \<Rightarrow> (Panic NilPointerDereference, s)
      | Some branchCommit \<Rightarrow>
     (case RepoSHA branchCommit of
        None \<Rightarrow> (Err (NotFound (''branch '' @ branchName @ '' HEAD does not exist.'')), s)
      | Some headSHA \<Rightarrow>
     (case getCommit c headSHA s of
        (Err err, s0) \<Rightarrow> (Err (Wrap err), s0)
      | (Panic p, s0) \<Rightarrow> (Panic p, s0)
      | (Ok headCommit, s0) \<Rightarrow>
     (case cherryPickLoop c branchName commits headCommit s0 of
        (Err err, s') \<Rightarrow> (Err err, s')
      | (Panic p, s') \<Rightarrow> (Panic p, s')
      | (Ok _, s') \<Rightarrow> (Ok (), s'))))))"

text \<open>
  The pagination loop of \<open>getBranchCommits\<close>: one \<open>ListCommits\<close> call per turn,
  until the reply names no next page. The remote decides whether that ever happens, so
  the loop is a partial function: \<open>None\<close> is the loop that never ends.
\<close>

partial_function (option) listPages ::
  "'w api \<Rightarrow> string \<Rightarrow> nat \<Rightarrow> RepositoryCommit list \<Rightarrow> 'w session \<Rightarrow>
     (RepositoryCommit list result \<times> 'w session) option" where
  "listPages c branchName page repoCommits s =
     (case Repositories_ListCommits c branchName page perPage s of
        (Err err, s') \<Rightarrow> Some (Err (Wrap err), s')
      | (Panic p, s') \<Rightarrow> Some (Panic p, s')
      | (Ok (currCommits, nextPage), s') \<Rightarrow>
          if nextPage = 0 then Some (Ok (repoCommits @ currCommits), s')
          else listPages c branchName nextPage (repoCommits @ currCommits) s')"

text \<open>
  \<open>getBranchCommits\<close> gets commits on a branch of type
  \<open>go-github.RepositoryCommit\<close>.
\<close>

definition getBranchCommits ::
  "'w api \<Rightarrow> string \<Rightarrow> 'w session \<Rightarrow> (RepositoryCommit list result \<times> 'w session) option" where
  "getBranchCommits c branchName s = listPages c branchName 0 [] s"

text \<open>
  The inner loop of \<open>GetBranchCommits\<close> over \<open>comparison.Commits\<close>, for one
  \<open>repoCommit\<close>, with the slice \<open>commits\<close> it appends to.
\<close>

fun diffLoop ::
  "'w api \<Rightarrow> RepositoryCommit \<Rightarrow> RepositoryCommit list \<Rightarrow> Commit list \<Rightarrow> 'w session \<Rightarrow>
     Commit list result \<times> 'w session" where
  "diffLoop c repoCommit [] commits s = (Ok commits, s)"
| "diffLoop c repoCommit (diffCommit # rest) commits s =
     (if RepoGetSHA diffCommit = RepoGetSHA repoCommit then
        (case getCommit c (RepoGetSHA repoCommit) s of
           (Err err, s') \<Rightarrow> (Err (Wrap err), s')
         | (Panic p, s') \<Rightarrow> (Panic p, s')
         | (Ok commit, s') \<Rightarrow>
             if length (Parents commit) \<noteq> 1
             then (Err (Errorf ''merge commits are not supported.''), s')
             else diffLoop c repoCommit rest (commits @ [commit]) s')
      else diffLoop c repoCommit rest commits s)"

text \<open>The outer loop of \<open>GetBranchCommits\<close> over \<open>repoCommits\<close>.\<close>

fun repoLoop ::
  "'w api \<Rightarrow> RepositoryCommit list \<Rightarrow> RepositoryCommit list \<Rightarrow> Commit list \<Rightarrow> 'w session \<Rightarrow>
     Commit list result \<times> 'w session" where
  "repoLoop c [] comparison commits s = (Ok commits, s)"
| "repoLoop c (repoCommit # rest) comparison commits s =
     (case diffLoop c repoCommit comparison commits s of
        (Err err, s') \<Rightarrow> (Err err, s')
      | (Panic p, s') \<Rightarrow> (Panic p, s')
      | (Ok commits', s') \<Rightarrow> repoLoop c rest comparison commits' s')"

text \<open>\<open>GetBranchCommits\<close> gets commits on a branch.\<close>

definition GetBranchCommits ::
  "'w api \<Rightarrow> string \<Rightarrow> 'w session \<Rightarrow> (Commit list result \<times> 'w session) option" where
  "GetBranchCommits c branchName s =
     (case getBranchCommits c branchName s of
        None \<Rightarrow> None
      | Some (Err err, s1) \<Rightarrow> Some (Err (Wrap err), s1)
      | Some (Panic p, s1) \<Rightarrow> Some (Panic p, s1)
      | Some (Ok repoCommits, s1) \<Rightarrow>
     (case Repositories_CompareCommits c ''master'' branchName s1 of
        (Err err, s2) \<Rightarrow> Some (Err (Wrap err), s2)
      | (Panic p, s2) \<Rightarrow> Some (Panic p, s2)
      | (Ok comparison, s2) \<Rightarrow> Some (repoLoop c repoCommits comparison [] s2)))"

section \<open>The remote\<close>

text \<open>
  Modelled from the spec: the hosting service behind go-github, which is no code of
  this repository. Commits are immutable objects under their SHA, kept in the order
  they were created; a branch reference is a named pointer to a SHA and the only thing
  that changes; the three-way merge of the host is the parameter \<open>automerge\<close> of the
  world (\<open>None\<close> is a conflict).
\<close>

text \<open>Modelled from the spec: a stored commit (message, tree, the SHAs of its parents).\<close>

record GitObject =
  objMessage :: string
  objTree :: Tree
  objParents :: "string list"

text \<open>
  Modelled from the spec: the repository of the host. \<open>objects\<close> is the store, in
  the order of creation; \<open>refs\<close> maps a reference name (\<open>refs/heads/\<close> and the
  branch name) to the SHA it points at.
\<close>

record repo =
  objects :: "(string \<times> GitObject) list"
  refs :: "string \<rightharpoonup> string"
  automerge :: "string \<Rightarrow> string \<Rightarrow> Tree option"

text \<open>Modelled from the spec: the SHAs of the store, oldest first.\<close>

definition shas :: "repo \<Rightarrow> string list" where
  "shas w = map fst (objects w)"

text \<open>
  Modelled from the spec: creating a commit always creates a new object. The SHA given
  to it is longer than every SHA of the store, hence new.
\<close>

definition newSHA :: "(string \<times> GitObject) list \<Rightarrow> string" where
  "newSHA objs = replicate (Suc (foldr (\<lambda>kv n. max (length (fst kv)) n) objs 0)) (CHR ''0'')"

text \<open>
  Modelled from the spec: the commit the remote reports for a stored object; its
  parents carry a SHA only.
\<close>

definition asCommit :: "string \<times> GitObject \<Rightarrow> Commit" where
  "asCommit kv =
     Commit (Some (fst kv)) (Some (objMessage (snd kv))) (Some (objTree (snd kv)))
       (map (\<lambda>p. Commit (Some p) None None []) (objParents (snd kv)))"

text \<open>
  Modelled from the spec: the commits reachable from a commit, by one pass over the
  store from the newest object to the oldest: an object that is marked marks its
  parents. (Every parent of an object is older than the object: a commit is created
  with parents that exist.)
\<close>

fun mark :: "(string \<times> GitObject) list \<Rightarrow> string set \<Rightarrow> string set" where
  "mark [] S = S"
| "mark (kv # older) S = mark older (if fst kv \<in> S then S \<union> set (objParents (snd kv)) else S)"

text \<open>Modelled from the spec: what a commit reaches in the repository.\<close>

definition ancestors :: "repo \<Rightarrow> string \<Rightarrow> string set" where
  "ancestors w h = mark (rev (objects w)) {h}"

text \<open>
  Modelled from the spec: a branch name or a SHA, as the listing and the comparison
  accept either.
\<close>

definition resolve :: "repo \<Rightarrow> string \<Rightarrow> string option" where
  "resolve w name =
     (case refs w (branchRefPrefix @ name) of
        Some h \<Rightarrow> Some h
      | None \<Rightarrow> if name \<in> set (shas w) then Some name else None)"

text \<open>Modelled from the spec: \<open>getCommit(id)\<close> fails with NotFound if the id is unknown.\<close>

definition hostGetCommit :: "string \<Rightarrow> repo \<Rightarrow> Commit result \<times> repo" where
  "hostGetCommit sha w =
     (case map_of (objects w) sha of
        None \<Rightarrow> (Err (ApiError ''404 Not Found''), w)
      | Some ob \<Rightarrow> (Ok (asCommit (sha, ob)), w))"

text \<open>
  Modelled from the spec: \<open>createCommit(message, treeId, parentIds)\<close> always creates
  a new object. go-github dereferences the SHA of every parent it is given; the host
  refuses a commit without message or tree, or with a parent it does not hold.
\<close>

definition hostCreateCommit :: "Commit \<Rightarrow> repo \<Rightarrow> Commit result \<times> repo" where
  "hostCreateCommit commit w =
     (if \<exists>p \<in> set (Parents commit). SHA p = None then (Panic NilPointerDereference, w)
      else case (Message commit, Tree commit) of
        (Some m, Some t) \<Rightarrow>
          if set (map GetSHA (Parents commit)) \<subseteq> set (shas w) then
            (let sha = newSHA (objects w);
                 ob = \<lparr>objMessage = m, objTree = t, objParents = map GetSHA (Parents commit)\<rparr>
             in (Ok (asCommit (sha, ob)), w\<lparr>objects := objects w @ [(sha, ob)]\<rparr>))
          else (Err (ApiError ''422 Unprocessable Entity''), w)
      | _ \<Rightarrow> (Err (ApiError ''422 Unprocessable Entity''), w))"

text \<open>
  Modelled from the spec: \<open>updateRef(branchName, commitId, force=true)\<close> fails if the
  branch does not exist. The host of the model does not look at the SHA it is given.
\<close>

definition hostUpdateRef :: "string \<Rightarrow> string \<Rightarrow> bool \<Rightarrow> repo \<Rightarrow> unit result \<times> repo" where
  "hostUpdateRef ref sha force w =
     (case refs w ref of
        None \<Rightarrow> (Err (ApiError ''422 Reference does not exist''), w)
      | Some _ \<Rightarrow> (Ok (), w\<lparr>refs := (refs w)(ref \<mapsto> sha)\<rparr>))"

text \<open>Modelled from the spec: \<open>deleteRef(branchName)\<close>.\<close>

definition hostDeleteRef :: "string \<Rightarrow> repo \<Rightarrow> unit result \<times> repo" where
  "hostDeleteRef ref w =
     (case refs w ref of
        None \<Rightarrow> (Err (ApiError ''422 Reference does not exist''), w)
      | Some _ \<Rightarrow> (Ok (), w\<lparr>refs := (refs w)(ref := None)\<rparr>))"

text \<open>
  Modelled from the spec: \<open>mergeTrees(targetBranch, headCommitId)\<close> fails with
  Conflict if the merge cannot be resolved automatically, and returns a commit whose
  tree is the merge result. The merge commit has the branch's head and the merged
  commit as parents, and the branch is moved to it.
\<close>

definition hostMerge :: "string \<Rightarrow> string \<Rightarrow> repo \<Rightarrow> RepositoryCommit result \<times> repo" where
  "hostMerge base head w =
     (case refs w (branchRefPrefix @ base) of
        None \<Rightarrow> (Err (ApiError ''404 Not Found''), w)
      | Some b \<Rightarrow>
          if head \<notin> set (shas w) then (Err (ApiError ''404 Not Found''), w)
          else
            (case automerge w b head of
               None \<Rightarrow> (Err (ApiError ''409 Merge conflict''), w)
             | Some t \<Rightarrow>
                 (let sha = newSHA (objects w);
                      ob = \<lparr>objMessage = ''Merge'', objTree = t, objParents = [b, head]\<rparr>
                  in (Ok (RepositoryCommit (Some sha)),
                      w\<lparr>objects := objects w @ [(sha, ob)],
                        refs := (refs w)(branchRefPrefix @ base \<mapsto> sha)\<rparr>))))"

text \<open>Modelled from the spec: the commit summary the remote lists for a SHA.\<close>

definition summary :: "string \<Rightarrow> RepositoryCommit" where
  "summary k = RepositoryCommit (Some k)"

text \<open>
  Modelled from the spec: \<open>listCommits(branchName)\<close>, an ordered list of commit
  summaries: the commits reachable from the branch's head, in branch order, the oldest
  first. (The spec has the resolver enumerate the branch ``in branch traversal order'',
  keep ``the traversal order from the first enumeration'', and return the commits ``in
  branch order (oldest replayed first)'': \<open>[B, C]\<close> in its scenario.) Page 0 is
  page 1.
\<close>

definition history :: "repo \<Rightarrow> string \<Rightarrow> string list" where
  "history w h = filter (\<lambda>k. k \<in> ancestors w h) (shas w)"

definition hostListCommits ::
  "string \<Rightarrow> nat \<Rightarrow> nat \<Rightarrow> repo \<Rightarrow> (RepositoryCommit list \<times> nat) result \<times> repo" where
  "hostListCommits sha page per w =
     (case resolve w sha of
        None \<Rightarrow> (Err (ApiError ''404 Not Found''), w)
      | Some h \<Rightarrow>
          (let p = max page 1;
               listed = history w h
           in (Ok (map summary (take per (drop ((p - 1) * per) listed)),
                   if p * per < length listed then p + 1 else 0), w)))"

text \<open>
  Modelled from the spec: \<open>compareCommits(base, head)\<close>, the host-side ahead/behind
  diff: the commits reachable from head and not from base, the oldest first.
\<close>

definition ahead :: "repo \<Rightarrow> string \<Rightarrow> string \<Rightarrow> string list" where
  "ahead w b h = filter (\<lambda>k. k \<in> ancestors w h \<and> k \<notin> ancestors w b) (shas w)"

definition hostCompareCommits ::
  "string \<Rightarrow> string \<Rightarrow> repo \<Rightarrow> RepositoryCommit list result \<times> repo" where
  "hostCompareCommits base head w =
     (case (resolve w base, resolve w head) of
        (Some b, Some h) \<Rightarrow> (Ok (map summary (ahead w b h)), w)
      | _ \<Rightarrow> (Err (ApiError ''404 Not Found''), w))"

text \<open>Modelled from the spec: the endpoints of the host together.\<close>

definition host :: "repo api" where
  "host =
     \<lparr>GetCommit = hostGetCommit, CreateCommit = hostCreateCommit, UpdateRef = hostUpdateRef,
      DeleteRef = hostDeleteRef, Merge = hostMerge, CompareCommits = hostCompareCommits,
      ListCommits = hostListCommits\<rparr>"

subsection \<open>The scenario of the spec\<close>

text \<open>
  Mainline \<open>master\<close> is at commit a; the source branch \<open>fix\<close> is a, b (``Fix bug''),
  c (``Add test''); the target branch \<open>release\<close> is at d, whose history is its own.
  Merging c conflicts in \<open>conflicting\<close> and nowhere else.
\<close>

definition scenario :: repo where
  "scenario =
     \<lparr>objects =
        [(''a'', \<lparr>objMessage = ''Initial'', objTree = ''T0'', objParents = []\<rparr>),
         (''b'', \<lparr>objMessage = ''Fix bug'', objTree = ''T1'', objParents = [''a'']\<rparr>),
         (''c'', \<lparr>objMessage = ''Add test'', objTree = ''T2'', objParents = [''b'']\<rparr>),
         (''d'', \<lparr>objMessage = ''Release'', objTree = ''Td'', objParents = []\<rparr>)],
      refs = [branchRefPrefix @ ''master'' \<mapsto> ''a'', branchRefPrefix @ ''fix'' \<mapsto> ''c'',
              branchRefPrefix @ ''release'' \<mapsto> ''d''],
      automerge = (\<lambda>b h. Some (''M'' @ h))\<rparr>"

definition conflicting :: repo where
  "conflicting = scenario\<lparr>automerge := (\<lambda>b h. if h = ''c'' then None else Some (''M'' @ h))\<rparr>"

definition release :: Branch where
  "release = Branch (Some ''release'') (Some (RepositoryCommit (Some ''d'')))"

definition pickB :: Commit where
  "pickB = asCommit (''b'', \<lparr>objMessage = ''Fix bug'', objTree = ''T1'', objParents = [''a'']\<rparr>)"

definition pickC :: Commit where
  "pickC = asCommit (''c'', \<lparr>objMessage = ''Add test'', objTree = ''T2'', objParents = [''b'']\<rparr>)"

definition pickA :: Commit where
  "pickA = asCommit (''a'', \<lparr>objMessage = ''Initial'', objTree = ''T0'', objParents = []\<rparr>)"

text \<open>
  A source branch with a merge commit: \<open>fix\<close> is at m, the merge of b and x, both
  children of a, where \<open>master\<close> is.
\<close>

definition merged :: repo where
  "merged =
     \<lparr>objects =
        [(''a'', \<lparr>objMessage = ''Initial'', objTree = ''T0'', objParents = []\<rparr>),
         (''b'', \<lparr>objMessage = ''Fix bug'', objTree = ''T1'', objParents = [''a'']\<rparr>),
         (''x'', \<lparr>objMessage = ''Other work'', objTree = ''T3'', objParents = [''a'']\<rparr>),
         (''m'', \<lparr>objMessage = ''Merge x'', objTree = ''T4'', objParents = [''b'', ''x'']\<rparr>)],
      refs = [branchRefPrefix @ ''master'' \<mapsto> ''a'', branchRefPrefix @ ''fix'' \<mapsto> ''m''],
      automerge = (\<lambda>b h. None)\<rparr>"

subsection \<open>Reading the log\<close>

text \<open>The calls of a log, without the worlds.\<close>

definition calls :: "'w event list \<Rightarrow> (request \<times> reply) list" where
  "calls evs = map (\<lambda>(rq, rp, w). (rq, rp)) evs"

text \<open>The events a run added to the log: those after the ones it started with.\<close>

definition added :: "'w session \<Rightarrow> 'w session \<Rightarrow> 'w event list" where
  "added s s' = drop (length (snd s)) (snd s')"

text \<open>
  Every \<open>UpdateRef\<close> of a log comes right after a \<open>CreateCommit\<close> that the remote
  answered with a commit of the SHA the reference is set to. \<open>prev\<close> is the event
  before the list, if any.
\<close>

fun updatesFollowCreation :: "(request \<times> reply) option \<Rightarrow> (request \<times> reply) list \<Rightarrow> bool" where
  "updatesFollowCreation prev [] = True"
| "updatesFollowCreation prev (ev # evs) =
     ((case fst ev of
         UpdateRefReq ref sha force \<Rightarrow>
           (case prev of
              Some (CreateCommitReq commit, GotCommit created) \<Rightarrow> GetSHA created = sha
            | _ \<Rightarrow> False)
       | _ \<Rightarrow> True) \<and>
      updatesFollowCreation (Some ev) evs)"

text \<open>A reference of the remote is absent or points at a commit the remote holds.\<close>

definition pointsAtCommit :: "repo \<Rightarrow> string \<Rightarrow> bool" where
  "pointsAtCommit w ref = (case refs w ref of None \<Rightarrow> True | Some sha \<Rightarrow> sha \<in> set (shas w))"

text \<open>A call that set a reference and succeeded.\<close>

fun movedRef :: "request \<times> reply \<Rightarrow> bool" where
  "movedRef (UpdateRefReq ref sha force, Done) = True"
| "movedRef _ = False"

text \<open>The base and head of every \<open>CompareCommits\<close> call of a log, in order.\<close>

fun comparisons :: "(request \<times> reply) list \<Rightarrow> (string \<times> string) list" where
  "comparisons [] = []"
| "comparisons ((CompareCommitsReq base head, rp) # evs) = (base, head) # comparisons evs"
| "comparisons (ev # evs) = comparisons evs"

text \<open>
  A store is chronological when every object is new when it is added and names only
  parents that the store already holds. \<open>parentsFirst\<close> reads the store from the
  newest object to the oldest.
\<close>

fun parentsFirst :: "(string \<times> GitObject) list \<Rightarrow> bool" where
  "parentsFirst [] = True"
| "parentsFirst (kv # older) =
     (fst kv \<notin> fst ` set older \<and> set (objParents (snd kv)) \<subseteq> fst ` set older \<and>
      parentsFirst older)"

definition chronological :: "repo \<Rightarrow> bool" where
  "chronological w = parentsFirst (rev (objects w))"

text \<open>
  Reachability in a store, as such: a commit reaches itself and whatever a parent of
  it reaches. In a chronological store \<open>ancestors\<close> computes it (lemma
  \<open>ancestors_reachable\<close>).
\<close>

inductive reachable :: "(string \<times> GitObject) list \<Rightarrow> string \<Rightarrow> string \<Rightarrow> bool"
  for objs :: "(string \<times> GitObject) list" where
  self: "reachable objs k k"
| parent: "(k, ob) \<in> set objs \<Longrightarrow> p \<in> set (objParents ob) \<Longrightarrow> reachable objs p k' \<Longrightarrow>
     reachable objs k k'"



text \<open>
  A session of the remote in which a reference was never dangling: it is absent or
  points at a held commit now, and was so after every call of the log.
\<close>

definition sound :: "string \<Rightarrow> repo session \<Rightarrow> bool" where
  "sound ref s =
     (pointsAtCommit (fst s) ref \<and> (\<forall>ev \<in> set (snd s). pointsAtCommit (snd (snd ev)) ref))"

text \<open>The head commit of \<open>release\<close> as the remote reports it.\<close>

definition headD :: Commit where
  "headD = asCommit (''d'', \<lparr>objMessage = ''Release'', objTree = ''Td'', objParents = []\<rparr>)"

section \<open>Theorems\<close>

subsection \<open>Unfolding\<close>

lemmas call_defs = perform_def Git_GetCommit_def Git_CreateCommit_def Git_UpdateRef_def
  Git_DeleteRef_def Repositories_Merge_def Repositories_CompareCommits_def
  Repositories_ListCommits_def

lemmas helper_defs = updateBranch_def createCommit_def getCommit_def merge_def
  deleteBranch_def createSiblingCommit_def Wrap_def GetTree_def

lemmas host_defs = host_def hostGetCommit_def hostCreateCommit_def hostUpdateRef_def
  hostDeleteRef_def hostMerge_def

lemmas scenario_defs = scenario_def conflicting_def release_def pickA_def pickB_def pickC_def
  headD_def asCommit_def shas_def newSHA_def branchRefPrefix_def GetSHA_def RepoGetSHA_def
  index_def summary_def

lemmas run_defs = CherryPickCommitsOnBranch_def cherryPickCommit_def helper_defs call_defs
  host_defs scenario_defs Let_def

subsection \<open>What a successful helper adds to the log\<close>

lemma createCommit_Ok:
  assumes "createCommit c m t p s = (Ok sha, s')"
  shows "\<exists>commit w'. GetSHA commit = sha \<and>
           s' = (w', snd s @ [(CreateCommitReq (Commit None (Some m) t [p]), GotCommit commit, w')])"
  using assms
  by (auto simp: createCommit_def Git_CreateCommit_def perform_def split: prod.splits result.splits)

lemma updateBranch_Ok:
  assumes "updateBranch c b sha s = (Ok u, s')"
  shows "\<exists>w'. s' = (w', snd s @ [(UpdateRefReq (branchRefPrefix @ b) sha True, Done, w')])"
  using assms
  by (auto simp: updateBranch_def Git_UpdateRef_def perform_def Let_def split: prod.splits result.splits)

lemma getCommit_Ok:
  assumes "getCommit c sha s = (Ok commit, s')"
  shows "\<exists>w'. s' = (w', snd s @ [(GetCommitReq sha, GotCommit commit, w')])"
  using assms
  by (auto simp: getCommit_def Git_GetCommit_def perform_def split: prod.splits result.splits)

lemma merge_Ok:
  assumes "merge c b h s = (Ok commit, s')"
  shows "\<exists>mrg w1 w2. s' = (w2, snd s @ [(MergeReq b h, GotRepositoryCommit mrg, w1),
            (GetCommitReq (RepoGetSHA mrg), GotCommit commit, w2)])"
  using assms
  by (auto simp: merge_def Repositories_Merge_def perform_def getCommit_def Git_GetCommit_def
      split: prod.splits result.splits)

lemma createSiblingCommit_Ok:
  assumes "createSiblingCommit c b hc p s = (Ok u, s')"
  shows "\<exists>sibling w1 w2. s' = (w2, snd s @
           [(CreateCommitReq (Commit None (Some ''temp'') (Tree hc) [p]), GotCommit sibling, w1),
            (UpdateRefReq (branchRefPrefix @ b) (GetSHA sibling) True, Done, w2)])"
proof -
  from assms obtain sha s1 where 1: "createCommit c ''temp'' (Tree hc) p s = (Ok sha, s1)"
    and 2: "updateBranch c b sha s1 = (Ok (), s')"
    by (auto simp: createSiblingCommit_def GetTree_def split: prod.splits result.splits)
  from createCommit_Ok[OF 1] updateBranch_Ok[OF 2] show ?thesis by auto
qed


subsection \<open>The loop\<close>

lemma cherryPickLoop_append:
  "cherryPickLoop c branchName picked headCommit s = (Ok headCommit', s1) \<Longrightarrow>
   cherryPickLoop c branchName (picked @ commits) headCommit s =
     cherryPickLoop c branchName commits headCommit' s1"
  by (induction picked arbitrary: headCommit s)
     (auto split: prod.splits result.splits)

subsection \<open>Logs\<close>

lemma added_refl [simp]: "added s s = []"
  by (simp add: added_def)

lemma added_append [simp]: "added (w, evs) (w', evs @ new) = new"
  by (simp add: added_def)

lemma updatesFollowCreation_weaken:
  "updatesFollowCreation None evs \<Longrightarrow> updatesFollowCreation prev evs"
  by (cases evs) (auto split: request.splits)

lemma updatesFollowCreation_append:
  "updatesFollowCreation prev xs \<Longrightarrow> updatesFollowCreation None ys \<Longrightarrow>
   updatesFollowCreation prev (xs @ ys)"
  by (induction xs arbitrary: prev) (auto simp: updatesFollowCreation_weaken)

text \<open>What one step adds to the log.\<close>

lemma cherryPickCommit_log:
  "\<exists>evs. snd (snd (cherryPickCommit c branchName commit headCommit s)) = snd s @ evs \<and>
     updatesFollowCreation None (calls evs)"
  by (auto simp: cherryPickCommit_def helper_defs call_defs calls_def Let_def
      split: prod.splits result.splits option.splits)

lemma cherryPickCommit_first_call:
  assumes "Parents commit = p # others"
  shows "\<exists>evs. snd (snd (cherryPickCommit c branchName commit headCommit s)) = snd s @ evs \<and>
     map fst (take 1 (calls evs)) = [CreateCommitReq (Commit None (Some ''temp'') (Tree headCommit) [p])]"
  using assms
  by (auto simp: cherryPickCommit_def helper_defs call_defs calls_def index_def Let_def
      split: prod.splits result.splits option.splits)


lemma deleteBranch_log:
  "\<exists>r rp w'. deleteBranch c branchName s =
     (r, (w', snd s @ [(DeleteRefReq (branchRefPrefix @ branchName), rp, w')]))"
  by (auto simp: helper_defs call_defs Let_def split: prod.splits result.splits)

lemma cherryPickLoop_log:
  "\<exists>evs. snd (snd (cherryPickLoop c branchName commits headCommit s)) = snd s @ evs \<and>
     updatesFollowCreation None (calls evs)"
proof (induction commits arbitrary: headCommit s)
  case Nil
  show ?case by (simp add: calls_def)
next
  case (Cons commit commits)
  obtain r s1 where step: "cherryPickCommit c branchName commit headCommit s = (r, s1)"
    by (cases "cherryPickCommit c branchName commit headCommit s")
  from cherryPickCommit_log[of c branchName commit headCommit s] step
  obtain evs1 where e1: "snd s1 = snd s @ evs1" "updatesFollowCreation None (calls evs1)"
    by auto
  show ?case
  proof (cases r)
    case (Ok x)
    obtain t sha where x: "x = (t, sha)" by (cases x)
    from Cons.IH[of "Commit (Some sha) (Message headCommit) t (Parents headCommit)" s1]
    obtain evs2 where e2:
      "snd (snd (cherryPickLoop c branchName commits
          (Commit (Some sha) (Message headCommit) t (Parents headCommit)) s1)) = snd s1 @ evs2"
      "updatesFollowCreation None (calls evs2)" by auto
    from e1 e2 have "updatesFollowCreation None (calls (evs1 @ evs2))"
      by (simp add: calls_def updatesFollowCreation_append)
    with step Ok x e1 e2 show ?thesis by auto
  next
    case (Err err)
    from deleteBranch_log[of c branchName s1] obtain r2 rp w' where
      d: "deleteBranch c branchName s1 =
           (r2, (w', snd s1 @ [(DeleteRefReq (branchRefPrefix @ branchName), rp, w')]))" by auto
    have u: "updatesFollowCreation None
        (calls (evs1 @ [(DeleteRefReq (branchRefPrefix @ branchName), rp, w')]))"
      using e1 by (simp add: calls_def updatesFollowCreation_append)
    from step Err d have "snd (cherryPickLoop c branchName (commit # commits) headCommit s) =
        (w', snd s1 @ [(DeleteRefReq (branchRefPrefix @ branchName), rp, w')])"
      by (cases r2) auto
    with e1 u show ?thesis by auto
  next
    case (Panic p)
    with step e1 show ?thesis by auto
  qed
qed

subsection \<open>The remote never leaves a reference dangling\<close>

lemma shas_simps:
  "shas (w\<lparr>objects := objs\<rparr>) = map fst objs"
  "shas (w\<lparr>refs := r\<rparr>) = shas w"
  by (simp_all add: shas_def)

lemma objects_shas: "map fst (objects w) = shas w"
  by (simp add: shas_def)

lemma getCommit_host_sound:
  "getCommit host sha s = (r, s') \<Longrightarrow> sound ref s \<Longrightarrow> sound ref s'"
  by (auto simp: getCommit_def Git_GetCommit_def perform_def host_def hostGetCommit_def sound_def Wrap_def
      split: prod.splits result.splits option.splits)

lemma createCommit_host_sound:
  "createCommit host m t p s = (r, s') \<Longrightarrow> sound ref s \<Longrightarrow>
   sound ref s' \<and> (\<forall>sha. r = Ok sha \<longrightarrow> sha \<in> set (shas (fst s')))"
  by (auto simp: createCommit_def Git_CreateCommit_def perform_def host_def hostCreateCommit_def
        sound_def Wrap_def pointsAtCommit_def shas_simps objects_shas Let_def GetSHA_def asCommit_def
      split: prod.splits result.splits option.splits if_splits)

lemma updateBranch_host_sound:
  "updateBranch host b sha s = (r, s') \<Longrightarrow> sound ref s \<Longrightarrow> sha \<in> set (shas (fst s)) \<Longrightarrow>
   sound ref s'"
  by (auto simp: updateBranch_def Git_UpdateRef_def perform_def host_def hostUpdateRef_def
        sound_def Wrap_def pointsAtCommit_def shas_simps objects_shas Let_def
      split: prod.splits result.splits option.splits if_splits)

lemma deleteBranch_host_sound:
  "deleteBranch host b s = (r, s') \<Longrightarrow> sound ref s \<Longrightarrow> sound ref s'"
  by (auto simp: deleteBranch_def Git_DeleteRef_def perform_def host_def hostDeleteRef_def
        sound_def Wrap_def pointsAtCommit_def shas_simps objects_shas Let_def
      split: prod.splits result.splits option.splits if_splits)

lemma Merge_host_sound:
  "Repositories_Merge host b h s = (r, s') \<Longrightarrow> sound ref s \<Longrightarrow> sound ref s'"
  by (auto simp: Repositories_Merge_def perform_def host_def hostMerge_def
        sound_def pointsAtCommit_def shas_simps objects_shas Let_def
      split: prod.splits result.splits option.splits if_splits)

lemma merge_host_sound:
  "merge host b h s = (r, s') \<Longrightarrow> sound ref s \<Longrightarrow> sound ref s'"
  by (auto simp: merge_def split: prod.splits result.splits
      dest: Merge_host_sound getCommit_host_sound)

lemma createSiblingCommit_host_sound:
  "createSiblingCommit host b hc p s = (r, s') \<Longrightarrow> sound ref s \<Longrightarrow> sound ref s'"
  by (auto simp: createSiblingCommit_def Let_def split: prod.splits result.splits
      dest: createCommit_host_sound updateBranch_host_sound)

lemma cherryPickCommit_host_sound:
  "cherryPickCommit host b commit hc s = (r, s') \<Longrightarrow> sound ref s \<Longrightarrow> sound ref s'"
  apply (auto simp: cherryPickCommit_def Let_def split: prod.splits result.splits option.splits
      dest: createCommit_host_sound updateBranch_host_sound createSiblingCommit_host_sound
        merge_host_sound getCommit_host_sound)
    apply (metis createCommit_host_sound updateBranch_host_sound createSiblingCommit_host_sound
        merge_host_sound getCommit_host_sound fst_conv)+
  done

lemma cherryPickLoop_host_sound:
  "cherryPickLoop host b commits hc s = (r, s') \<Longrightarrow> sound ref s \<Longrightarrow> sound ref s'"
proof (induction commits arbitrary: hc s)
  case Nil
  then show ?case by simp
next
  case (Cons commit commits)
  obtain r1 s1 where step: "cherryPickCommit host b commit hc s = (r1, s1)"
    by (cases "cherryPickCommit host b commit hc s")
  with Cons.prems have s1: "sound ref s1" by (blast dest: cherryPickCommit_host_sound)
  show ?case
  proof (cases r1)
    case (Ok x)
    with Cons step s1 show ?thesis by (auto split: prod.splits)
  next
    case (Err err)
    obtain r2 s2 where d: "deleteBranch host b s1 = (r2, s2)" by (cases "deleteBranch host b s1")
    with s1 have "sound ref s2" by (blast dest: deleteBranch_host_sound)
    with Cons.prems step Err d show ?thesis by (cases r2) auto
  next
    case (Panic p)
    with Cons.prems step s1 show ?thesis by auto
  qed
qed

lemma CherryPickCommitsOnBranch_host_sound:
  "CherryPickCommitsOnBranch host branch commits s = (r, s') \<Longrightarrow> sound ref s \<Longrightarrow> sound ref s'"
  by (auto simp: CherryPickCommitsOnBranch_def split: option.splits prod.splits result.splits
      dest: getCommit_host_sound cherryPickLoop_host_sound)

lemma CherryPickCommitsOnBranch_log:
  "\<exists>evs. snd (snd (CherryPickCommitsOnBranch c branch commits s)) = snd s @ evs \<and>
     updatesFollowCreation None (calls evs)"
proof (cases "\<exists>branchName rc headSHA headCommit s0. Name branch = Some branchName \<and>
      HeadCommit branch = Some rc \<and> RepoSHA rc = Some headSHA \<and>
      getCommit c headSHA s = (Ok headCommit, s0)")
  case True
  then obtain branchName rc headSHA headCommit s0 where a: "Name branch = Some branchName"
    "HeadCommit branch = Some rc" "RepoSHA rc = Some headSHA"
    "getCommit c headSHA s = (Ok headCommit, s0)" by blast
  then obtain w0 where s0: "s0 = (w0, snd s @ [(GetCommitReq headSHA, GotCommit headCommit, w0)])"
    by (auto simp: getCommit_def Git_GetCommit_def perform_def split: prod.splits result.splits)
  from cherryPickLoop_log[of c branchName commits headCommit s0] obtain evs where
    e: "snd (snd (cherryPickLoop c branchName commits headCommit s0)) = snd s0 @ evs"
    "updatesFollowCreation None (calls evs)" by auto
  have "updatesFollowCreation None (calls ((GetCommitReq headSHA, GotCommit headCommit, w0) # evs))"
    using e(2) by (simp add: calls_def updatesFollowCreation_weaken)
  moreover have "snd (snd (CherryPickCommitsOnBranch c branch commits s)) =
      snd (snd (cherryPickLoop c branchName commits headCommit s0))"
    using a by (auto simp: CherryPickCommitsOnBranch_def split: prod.splits result.splits)
  ultimately show ?thesis using e(1) s0 by auto
next
  case False
  then show ?thesis
    by (auto simp: CherryPickCommitsOnBranch_def getCommit_def Git_GetCommit_def perform_def calls_def
        split: option.splits prod.splits result.splits)
qed

subsection \<open>A step that fails\<close>

lemma createCommit_Err:
  assumes "createCommit c m t p s = (Err err, s')"
  shows "\<exists>w'. s' = (w', snd s @ [(CreateCommitReq (Commit None (Some m) t [p]), Failed err, w')])"
  using assms
  by (auto simp: createCommit_def Git_CreateCommit_def perform_def Wrap_def
      split: prod.splits result.splits)

lemma updateBranch_Err:
  assumes "updateBranch c b sha s = (Err err, s')"
  shows "\<exists>w'. s' = (w', snd s @ [(UpdateRefReq (branchRefPrefix @ b) sha True, Failed err, w')])"
  using assms
  by (auto simp: updateBranch_def Git_UpdateRef_def perform_def Wrap_def Let_def
      split: prod.splits result.splits)

lemma getCommit_Err:
  assumes "getCommit c sha s = (Err err, s')"
  shows "\<exists>w'. s' = (w', snd s @ [(GetCommitReq sha, Failed err, w')])"
  using assms
  by (auto simp: getCommit_def Git_GetCommit_def perform_def Wrap_def
      split: prod.splits result.splits)

lemma merge_Err:
  assumes "merge c b h s = (Err err, s')"
  shows "(\<exists>w'. s' = (w', snd s @ [(MergeReq b h, Failed err, w')])) \<or>
         (\<exists>mrg w1 w2. s' = (w2, snd s @ [(MergeReq b h, GotRepositoryCommit mrg, w1),
            (GetCommitReq (RepoGetSHA mrg), Failed err, w2)]))"
  using assms
  by (auto simp: merge_def Repositories_Merge_def perform_def getCommit_def Git_GetCommit_def Wrap_def
      split: prod.splits result.splits)

lemma createSiblingCommit_Err:
  assumes "createSiblingCommit c b hc p s = (Err err, s')"
  shows "(\<exists>w'. s' = (w', snd s @
            [(CreateCommitReq (Commit None (Some ''temp'') (Tree hc) [p]), Failed err, w')])) \<or>
         (\<exists>sibling w1 w2. s' = (w2, snd s @
            [(CreateCommitReq (Commit None (Some ''temp'') (Tree hc) [p]), GotCommit sibling, w1),
             (UpdateRefReq (branchRefPrefix @ b) (GetSHA sibling) True, Failed err, w2)]))"
proof -
  from assms consider
    (create) "createCommit c ''temp'' (Tree hc) p s = (Err err, s')"
  | (update) sha s1 where "createCommit c ''temp'' (Tree hc) p s = (Ok sha, s1)"
      "updateBranch c b sha s1 = (Err err, s')"
    by (auto simp: createSiblingCommit_def GetTree_def Wrap_def split: prod.splits result.splits)
  then show ?thesis
  proof cases
    case create
    from createCommit_Err[OF this] show ?thesis by blast
  next
    case update
    from createCommit_Ok[OF update(1)] updateBranch_Err[OF update(2)] show ?thesis by auto
  qed
qed

lemma cherryPickCommit_Err:
  assumes "cherryPickCommit c branchName commit headCommit s = (Err err, s')"
  shows "\<exists>evs rq wl. snd s' = snd s @ evs \<and> evs \<noteq> [] \<and> last evs = (rq, Failed err, wl) \<and>
           map movedRef (calls (butlast evs)) =
             take (length evs - 1) [False, True, False, False, False, False]"
proof -
  from assms obtain p others where p: "Parents commit = p # others"
    by (cases "Parents commit") (auto simp: cherryPickCommit_def index_def)
  from assms p consider
    (sibling) "createSiblingCommit c branchName headCommit p s = (Err err, s')"
  | (merging) s1 cs where "createSiblingCommit c branchName headCommit p s = (Ok (), s1)"
      "merge c branchName cs s1 = (Err err, s')"
  | (reading) s1 cs mc s2 hs where "createSiblingCommit c branchName headCommit p s = (Ok (), s1)"
      "merge c branchName cs s1 = (Ok mc, s2)" "getCommit c hs s2 = (Err err, s')"
  | (creating) s1 cs mc s2 hs uc s3 m where
      "createSiblingCommit c branchName headCommit p s = (Ok (), s1)"
      "merge c branchName cs s1 = (Ok mc, s2)" "getCommit c hs s2 = (Ok uc, s3)"
      "createCommit c m (Tree mc) uc s3 = (Err err, s')"
  | (updating) s1 cs mc s2 hs uc s3 m sha s4 where
      "createSiblingCommit c branchName headCommit p s = (Ok (), s1)"
      "merge c branchName cs s1 = (Ok mc, s2)" "getCommit c hs s2 = (Ok uc, s3)"
      "createCommit c m (Tree mc) uc s3 = (Ok sha, s4)"
      "updateBranch c branchName sha s4 = (Err err, s')"
    by (auto simp: cherryPickCommit_def index_def Let_def Wrap_def GetTree_def
        split: prod.splits result.splits option.splits)
  then show ?thesis
  proof cases
    case sibling
    from createSiblingCommit_Err[OF this] show ?thesis by (auto simp: calls_def)
  next
    case merging
    from createSiblingCommit_Ok[OF merging(1)] merge_Err[OF merging(2)] show ?thesis
      by (auto simp: calls_def)
  next
    case reading
    from createSiblingCommit_Ok[OF reading(1)] merge_Ok[OF reading(2)] getCommit_Err[OF reading(3)]
    show ?thesis by (auto simp: calls_def)
  next
    case creating
    from createSiblingCommit_Ok[OF creating(1)] merge_Ok[OF creating(2)] getCommit_Ok[OF creating(3)]
      createCommit_Err[OF creating(4)]
    show ?thesis by (auto simp: calls_def)
  next
    case updating
    from createSiblingCommit_Ok[OF updating(1)] merge_Ok[OF updating(2)] getCommit_Ok[OF updating(3)]
      createCommit_Ok[OF updating(4)] updateBranch_Err[OF updating(5)]
    show ?thesis by (auto simp: calls_def)
  qed
qed

lemma deleteBranch_result:
  "\<exists>r w'. DeleteRef c (branchRefPrefix @ branchName) (fst s) = (r, w') \<and>
     deleteBranch c branchName s =
       ((case r of Ok u \<Rightarrow> Ok () | Err e \<Rightarrow> Err e | Panic p \<Rightarrow> Panic p),
        (w', snd s @ [(DeleteRefReq (branchRefPrefix @ branchName),
                       (case r of Ok u \<Rightarrow> Done | Err e \<Rightarrow> Failed e | Panic p \<Rightarrow> Crashed p), w')]))"
  by (auto simp: helper_defs call_defs Let_def split: prod.splits result.splits)

subsection \<open>The calls of the resolver\<close>

lemma comparisons_append: "comparisons (xs @ ys) = comparisons xs @ comparisons ys"
  by (induction xs rule: comparisons.induct) auto

lemma calls_append: "calls (xs @ ys) = calls xs @ calls ys"
  by (simp add: calls_def)

lemma listPages_log:
  assumes "listPages c branchName page repoCommits s = Some y"
  shows "\<exists>evs. snd (snd y) = snd s @ evs \<and> comparisons (calls evs) = []"
proof (rule listPages.raw_induct
    [where P = "\<lambda>c branchName page repoCommits s y.
       \<exists>evs. snd (snd y) = snd s @ evs \<and> comparisons (calls evs) = []", OF _ assms],
    goal_cases)
  case (1 loop c branchName page repoCommits s y)
  obtain r s1 where l: "Repositories_ListCommits c branchName page perPage s = (r, s1)"
    by (cases "Repositories_ListCommits c branchName page perPage s")
  then obtain ev where s1: "snd s1 = snd s @ [ev]" "comparisons (calls [ev]) = []"
    by (auto simp: Repositories_ListCommits_def perform_def calls_def split: prod.splits)
  show ?case
  proof (cases "\<exists>currCommits nextPage. r = Ok (currCommits, nextPage) \<and> nextPage \<noteq> 0")
    case True
    then obtain currCommits nextPage where r: "r = Ok (currCommits, nextPage)" "nextPage \<noteq> 0"
      by blast
    with 1(2) l have "loop c branchName nextPage (repoCommits @ currCommits) s1 = Some y"
      by simp
    from 1(1)[OF this] obtain evs where e: "snd (snd y) = snd s1 @ evs" "comparisons (calls evs) = []"
      by blast
    from s1(2) e(2) have "comparisons (calls ([ev] @ evs)) = []"
      by (simp only: calls_append comparisons_append) simp
    moreover from s1(1) e(1) have "snd (snd y) = snd s @ ([ev] @ evs)" by simp
    ultimately show ?thesis by blast
  next
    case False
    with 1(2) l have "snd y = s1"
      by (cases r) (auto split: if_splits)
    with s1 show ?thesis by blast
  qed
qed

lemma getCommit_log:
  "\<exists>evs. snd (snd (getCommit c sha s)) = snd s @ evs \<and> comparisons (calls evs) = []"
  by (auto simp: getCommit_def Git_GetCommit_def perform_def calls_def split: prod.splits result.splits)

lemma diffLoop_log:
  "\<exists>evs. snd (snd (diffLoop c repoCommit comparison commits s)) = snd s @ evs \<and>
     comparisons (calls evs) = []"
proof (induction comparison arbitrary: commits s)
  case Nil
  show ?case by (simp add: calls_def)
next
  case (Cons diffCommit rest)
  show ?case
  proof (cases "RepoGetSHA diffCommit = RepoGetSHA repoCommit")
    case False
    with Cons show ?thesis by simp
  next
    case True
    obtain r s1 where g: "getCommit c (RepoGetSHA repoCommit) s = (r, s1)"
      by (cases "getCommit c (RepoGetSHA repoCommit) s")
    with getCommit_log[of c "RepoGetSHA repoCommit" s] obtain evs1 where
      e1: "snd s1 = snd s @ evs1" "comparisons (calls evs1) = []" by auto
    show ?thesis
    proof (cases "\<exists>commit. r = Ok commit \<and> length (Parents commit) = 1")
      case True
      then obtain commit where r: "r = Ok commit" "length (Parents commit) = 1" by blast
      from Cons[of "commits @ [commit]" s1] obtain evs2 where e2:
        "snd (snd (diffLoop c repoCommit rest (commits @ [commit]) s1)) = snd s1 @ evs2"
        "comparisons (calls evs2) = []" by blast
      from e1(2) e2(2) have "comparisons (calls (evs1 @ evs2)) = []"
        by (simp only: calls_append comparisons_append) simp
      moreover from e1(1) e2(1) r g \<open>RepoGetSHA diffCommit = RepoGetSHA repoCommit\<close>
      have "snd (snd (diffLoop c repoCommit (diffCommit # rest) commits s)) = snd s @ (evs1 @ evs2)"
        by simp
      ultimately show ?thesis by blast
    next
      case False
      with g \<open>RepoGetSHA diffCommit = RepoGetSHA repoCommit\<close>
      have "snd (diffLoop c repoCommit (diffCommit # rest) commits s) = s1"
        by (cases r) auto
      with e1 show ?thesis by auto
    qed
  qed
qed

lemma repoLoop_log:
  "\<exists>evs. snd (snd (repoLoop c repoCommits comparison commits s)) = snd s @ evs \<and>
     comparisons (calls evs) = []"
proof (induction repoCommits arbitrary: commits s)
  case Nil
  show ?case by (simp add: calls_def)
next
  case (Cons repoCommit rest)
  obtain r s1 where d: "diffLoop c repoCommit comparison commits s = (r, s1)"
    by (cases "diffLoop c repoCommit comparison commits s")
  with diffLoop_log[of c repoCommit comparison commits s] obtain evs1 where
    e1: "snd s1 = snd s @ evs1" "comparisons (calls evs1) = []" by auto
  show ?case
  proof (cases r)
    case (Ok commits')
    from Cons[of commits' s1] obtain evs2 where e2:
      "snd (snd (repoLoop c rest comparison commits' s1)) = snd s1 @ evs2"
      "comparisons (calls evs2) = []" by blast
    from e1(2) e2(2) have "comparisons (calls (evs1 @ evs2)) = []"
      by (simp only: calls_append comparisons_append) simp
    moreover from e1(1) e2(1) d Ok
    have "snd (snd (repoLoop c (repoCommit # rest) comparison commits s)) = snd s @ (evs1 @ evs2)"
      by simp
    ultimately show ?thesis by blast
  next
    case (Err e)
    with d e1 show ?thesis by auto
  next
    case (Panic p)
    with d e1 show ?thesis by auto
  qed
qed

subsection \<open>A successful replay on the remote of the model\<close>

lemma newSHA_length: "kv \<in> set objs \<Longrightarrow> length (fst kv) < length (newSHA objs)"
  by (induction objs) (auto simp: newSHA_def)

lemma newSHA_fresh: "newSHA objs \<notin> fst ` set objs"
  using newSHA_length by fastforce

lemma newSHA_fresh_shas: "newSHA (objects w) \<notin> set (shas w)"
  using newSHA_fresh[of "objects w"] by (simp add: shas_def)

lemma newSHA_map_of: "map_of objs (newSHA objs) = None"
  using newSHA_fresh[of objs] by (simp add: map_of_eq_None_iff)

lemma getCommit_host_Ok:
  assumes "getCommit host sha (w, evs) = (Ok commit, s')"
  shows "\<exists>ob. map_of (objects w) sha = Some ob \<and> commit = asCommit (sha, ob) \<and>
           s' = (w, evs @ [(GetCommitReq sha, GotCommit commit, w)])"
  using assms
  by (auto simp: getCommit_def Git_GetCommit_def perform_def host_def hostGetCommit_def
      split: option.splits)

lemma createCommit_host_Ok:
  assumes "createCommit host m t p (w, evs) = (Ok sha, s')"
  shows "\<exists>tr ps w'. t = Some tr \<and> SHA p = Some ps \<and> ps \<in> set (shas w) \<and> sha = newSHA (objects w) \<and>
           w' = w\<lparr>objects := objects w @ [(sha, \<lparr>objMessage = m, objTree = tr, objParents = [ps]\<rparr>)]\<rparr> \<and>
           s' = (w', evs @ [(CreateCommitReq (Commit None (Some m) t [p]),
                   GotCommit (asCommit (sha, \<lparr>objMessage = m, objTree = tr, objParents = [ps]\<rparr>)), w')])"
  using assms
  by (auto simp: createCommit_def Git_CreateCommit_def perform_def host_def hostCreateCommit_def
        Let_def GetSHA_def asCommit_def
      split: option.splits if_splits)

lemma updateBranch_host_Ok:
  assumes "updateBranch host b sha (w, evs) = (Ok u, s')"
  shows "\<exists>w'. w' = w\<lparr>refs := (refs w)(branchRefPrefix @ b \<mapsto> sha)\<rparr> \<and>
           s' = (w', evs @ [(UpdateRefReq (branchRefPrefix @ b) sha True, Done, w')])"
  using assms
  by (auto simp: updateBranch_def Git_UpdateRef_def perform_def host_def hostUpdateRef_def Let_def
      split: option.splits)

lemma merge_host_Ok:
  assumes "merge host b h (w, evs) = (Ok commit, s')"
  shows "\<exists>old tr sha ob w' evs'. refs w (branchRefPrefix @ b) = Some old \<and> h \<in> set (shas w) \<and>
           sha = newSHA (objects w) \<and> ob = \<lparr>objMessage = ''Merge'', objTree = tr, objParents = [old, h]\<rparr> \<and>
           w' = w\<lparr>objects := objects w @ [(sha, ob)], refs := (refs w)(branchRefPrefix @ b \<mapsto> sha)\<rparr> \<and>
           commit = asCommit (sha, ob) \<and> s' = (w', evs')"
  using assms
  by (auto simp: newSHA_map_of merge_def Repositories_Merge_def perform_def host_def hostMerge_def Let_def
        getCommit_def Git_GetCommit_def hostGetCommit_def RepoGetSHA_def
      split: option.splits if_splits)

lemma createSiblingCommit_host_Ok:
  assumes "createSiblingCommit host b hc p (w, evs) = (Ok u, s')"
  shows "\<exists>tr ps sha ob w' evs'. Tree hc = Some tr \<and> SHA p = Some ps \<and> ps \<in> set (shas w) \<and>
           sha = newSHA (objects w) \<and> ob = \<lparr>objMessage = ''temp'', objTree = tr, objParents = [ps]\<rparr> \<and>
           refs w (branchRefPrefix @ b) \<noteq> None \<and>
           w' = w\<lparr>objects := objects w @ [(sha, ob)], refs := (refs w)(branchRefPrefix @ b \<mapsto> sha)\<rparr> \<and>
           s' = (w', evs')"
proof -
  from assms obtain sha s1 where 1: "createCommit host ''temp'' (Tree hc) p (w, evs) = (Ok sha, s1)"
    and 2: "updateBranch host b sha s1 = (Ok (), s')"
    by (auto simp: createSiblingCommit_def GetTree_def split: prod.splits result.splits)
  from createCommit_host_Ok[OF 1] obtain tr ps w1 evs1 where
    c: "Tree hc = Some tr" "SHA p = Some ps" "ps \<in> set (shas w)" "sha = newSHA (objects w)"
    "w1 = w\<lparr>objects := objects w @ [(sha, \<lparr>objMessage = ''temp'', objTree = tr, objParents = [ps]\<rparr>)]\<rparr>"
    "s1 = (w1, evs1)" by blast
  from 2 c have "refs w (branchRefPrefix @ b) \<noteq> None"
    by (auto simp: updateBranch_def Git_UpdateRef_def perform_def host_def hostUpdateRef_def Let_def
      split: option.splits)
  with updateBranch_host_Ok[OF 2[unfolded c(6)]] c show ?thesis by auto
qed

text \<open>One successful step on the remote of the model.\<close>

lemma cherryPickCommit_host_Ok:
  assumes "cherryPickCommit host b commit hc (w, evs) = (Ok (t, sha), (w', evs'))"
    and "SHA hc = Some h"
  shows "\<exists>sib mrg ts tm ps cs msg others p.
      Parents commit = p # others \<and> SHA p = Some ps \<and> SHA commit = Some cs \<and> Message commit = Some msg \<and>
      t = Some tm \<and>
      objects w' = objects w @
        [(sib, \<lparr>objMessage = ''temp'', objTree = ts, objParents = [ps]\<rparr>),
         (mrg, \<lparr>objMessage = ''Merge'', objTree = tm, objParents = [sib, cs]\<rparr>),
         (sha, \<lparr>objMessage = msg, objTree = tm, objParents = [h]\<rparr>)] \<and>
      refs w' = (refs w)(branchRefPrefix @ b \<mapsto> sha) \<and> automerge w' = automerge w \<and>
      distinct [sib, mrg, sha] \<and> sib \<notin> set (shas w) \<and> mrg \<notin> set (shas w) \<and> sha \<notin> set (shas w) \<and>
      ps \<in> set (shas w) \<and> cs \<in> set (shas w @ [sib])"
proof -
  from assms obtain p others where p: "Parents commit = p # others"
    by (cases "Parents commit") (auto simp: cherryPickCommit_def index_def)
  from assms p obtain s1 cs mergeCommit s2 updatedCommit s3 msg s4 where
    1: "createSiblingCommit host b hc p (w, evs) = (Ok (), s1)"
    and cs: "SHA commit = Some cs"
    and 2: "merge host b cs s1 = (Ok mergeCommit, s2)"
    and 3: "getCommit host h s2 = (Ok updatedCommit, s3)"
    and m: "Message commit = Some msg"
    and 4: "createCommit host msg (Tree mergeCommit) updatedCommit s3 = (Ok sha, s4)"
    and 5: "updateBranch host b sha s4 = (Ok (), (w', evs'))"
    and t: "t = Tree mergeCommit"
    by (auto simp: cherryPickCommit_def index_def GetTree_def Let_def
        split: prod.splits result.splits option.splits)
  from createSiblingCommit_host_Ok[OF 1] obtain ts ps sib w1 evs1 where
    a: "Tree hc = Some ts" "SHA p = Some ps" "ps \<in> set (shas w)" "sib = newSHA (objects w)"
    "w1 = w\<lparr>objects := objects w @ [(sib, \<lparr>objMessage = ''temp'', objTree = ts, objParents = [ps]\<rparr>)],
              refs := (refs w)(branchRefPrefix @ b \<mapsto> sib)\<rparr>" "s1 = (w1, evs1)"
    by blast
  from merge_host_Ok[OF 2[unfolded a(6)]] obtain old tm mrg w2 evs2 where
    b: "refs w1 (branchRefPrefix @ b) = Some old" "cs \<in> set (shas w1)" "mrg = newSHA (objects w1)"
    "w2 = w1\<lparr>objects := objects w1 @ [(mrg, \<lparr>objMessage = ''Merge'', objTree = tm, objParents = [old, cs]\<rparr>)],
               refs := (refs w1)(branchRefPrefix @ b \<mapsto> mrg)\<rparr>"
    "mergeCommit = asCommit (mrg, \<lparr>objMessage = ''Merge'', objTree = tm, objParents = [old, cs]\<rparr>)"
    "s2 = (w2, evs2)"
    by blast
  from getCommit_host_Ok[OF 3[unfolded b(6)]] obtain obh where
    c: "map_of (objects w2) h = Some obh" "updatedCommit = asCommit (h, obh)"
    "s3 = (w2, evs2 @ [(GetCommitReq h, GotCommit updatedCommit, w2)])"
    by blast
  from createCommit_host_Ok[OF 4[unfolded c(3)]] obtain tr w4 evs4 where
    d: "Tree mergeCommit = Some tr" "h \<in> set (shas w2)" "sha = newSHA (objects w2)"
    "w4 = w2\<lparr>objects := objects w2 @ [(sha, \<lparr>objMessage = msg, objTree = tr, objParents = [h]\<rparr>)]\<rparr>"
    "s4 = (w4, evs4)"
    by (auto simp: c(2) asCommit_def)
  from updateBranch_host_Ok[OF 5[unfolded d(5)]] have
    e: "w' = w4\<lparr>refs := (refs w4)(branchRefPrefix @ b \<mapsto> sha)\<rparr>" by auto
  have old: "old = sib" using a(5) b(1) by simp
  have tr: "tr = tm" using d(1) b(5) by (simp add: asCommit_def)
  have objs: "objects w' = objects w @
        [(sib, \<lparr>objMessage = ''temp'', objTree = ts, objParents = [ps]\<rparr>),
         (mrg, \<lparr>objMessage = ''Merge'', objTree = tm, objParents = [sib, cs]\<rparr>),
         (sha, \<lparr>objMessage = msg, objTree = tm, objParents = [h]\<rparr>)]"
    using a(5) b(4) d(4) e old tr by simp
  have f1: "sib \<notin> set (shas w)" using a(4) newSHA_fresh_shas by simp
  have f2: "mrg \<notin> set (shas w1)" using b(3) newSHA_fresh_shas by simp
  have f3: "sha \<notin> set (shas w2)" using d(3) newSHA_fresh_shas by simp
  have s1: "shas w1 = shas w @ [sib]" using a(5) by (simp add: shas_def)
  have s2: "shas w2 = shas w @ [sib, mrg]" using b(4) s1 by (simp add: shas_def)
  have rf: "refs w' = (refs w)(branchRefPrefix @ b \<mapsto> sha)"
    using a(5) b(4) d(4) e by simp
  have am: "automerge w' = automerge w" using a(5) b(4) d(4) e by simp
  have cin: "cs \<in> set (shas w @ [sib])" using b(2) s1 by simp
  from p a(2) a(3) cin cs m t d(1) tr objs rf am f1 f2 f3 s1 s2 show ?thesis
    by auto
qed

lemma chronological_step:
  assumes "chronological w"
    and "objects w' = objects w @
        [(sib, \<lparr>objMessage = m1, objTree = ts, objParents = [ps]\<rparr>),
         (mrg, \<lparr>objMessage = m2, objTree = tm, objParents = [sib, cs]\<rparr>),
         (sha, \<lparr>objMessage = msg, objTree = tm, objParents = [h]\<rparr>)]"
    and "distinct [sib, mrg, sha]" "sib \<notin> set (shas w)" "mrg \<notin> set (shas w)" "sha \<notin> set (shas w)"
    and "ps \<in> set (shas w)" "cs \<in> set (shas w @ [sib])" "h \<in> set (shas w)"
  shows "chronological w'"
  using assms by (auto simp: chronological_def shas_def)

lemma mark_append: "mark (xs @ ys) S = mark ys (mark xs S)"
  by (induction xs arbitrary: S) auto

lemma mark_fresh: "T \<inter> fst ` set objs = {} \<Longrightarrow> mark objs (S \<union> T) = mark objs S \<union> T"
proof (induction objs arbitrary: S)
  case Nil
  show ?case by simp
next
  case (Cons kv objs)
  then have T: "T \<inter> fst ` set objs = {}" "fst kv \<notin> T" by auto
  show ?case
  proof (cases "fst kv \<in> S")
    case True
    with T have "mark (kv # objs) (S \<union> T) = mark objs ((S \<union> set (objParents (snd kv))) \<union> T)"
      by (simp add: Un_ac)
    with Cons.IH[OF T(1)] True show ?thesis by simp
  next
    case False
    with T Cons.IH[OF T(1)] show ?thesis by simp
  qed
qed

lemma ancestors_step:
  assumes "objects w' = objects w @
        [(sib, \<lparr>objMessage = m1, objTree = ts, objParents = [ps]\<rparr>),
         (mrg, \<lparr>objMessage = m2, objTree = tm, objParents = [sib, cs]\<rparr>),
         (sha, \<lparr>objMessage = msg, objTree = tm, objParents = [h]\<rparr>)]"
    and "distinct [sib, mrg, sha]" "sib \<notin> set (shas w)" "mrg \<notin> set (shas w)" "sha \<notin> set (shas w)"
    and "h \<in> set (shas w)"
  shows "ancestors w' sha = insert sha (ancestors w h)"
proof -
  have 1: "sib \<noteq> h" "mrg \<noteq> h" using assms by auto
  have "ancestors w' sha = mark (rev (objects w)) ({h} \<union> {sha})"
    using assms 1 by (simp add: ancestors_def insert_commute)
  also have "\<dots> = mark (rev (objects w)) {h} \<union> {sha}"
    using assms(5) by (intro mark_fresh) (simp add: shas_def)
  finally show ?thesis by (simp add: ancestors_def)
qed

lemma map_of_append_old: "k \<in> fst ` set xs \<Longrightarrow> map_of (xs @ ys) k = map_of xs k"
  by (simp add: map_add_def map_of_eq_None_iff split: option.splits)

lemma map_of_append_new: "k \<notin> fst ` set xs \<Longrightarrow> map_of (xs @ ys) k = map_of ys k"
proof -
  assume "k \<notin> fst ` set xs"
  then have "map_of xs k = None" by (simp add: map_of_eq_None_iff)
  then show ?thesis by (simp add: map_add_def)
qed

lemma cherryPickLoop_host_Ok:
  assumes "cherryPickLoop host b commits hc (w, evs) = (Ok hc', (w', evs'))"
    and "SHA hc = Some h" and "h \<in> set (shas w)"
  shows "\<exists>picked new. length picked = length commits \<and> objects w' = objects w @ new \<and>
     length new = 3 * length commits \<and> distinct picked \<and> set picked \<subseteq> fst ` set new \<and>
     fst ` set new \<inter> set (shas w) = {} \<and>
     refs w' = (if commits = [] then refs w else (refs w)(branchRefPrefix @ b \<mapsto> last picked)) \<and>
     (\<forall>i<length commits. \<exists>ob. map_of (objects w') (picked ! i) = Some ob \<and>
        Message (commits ! i) = Some (objMessage ob) \<and> objParents ob = [(h # picked) ! i]) \<and>
     ancestors w' (last (h # picked)) = set picked \<union> ancestors w h \<and>
     SHA hc' = Some (last (h # picked)) \<and> (chronological w \<longrightarrow> chronological w')"
  using assms
proof (induction commits arbitrary: hc w evs h)
  case Nil
  then show ?case by auto
next
  case (Cons commit commits)
  from Cons.prems(1) obtain t sha w1 evs1 where
    step: "cherryPickCommit host b commit hc (w, evs) = (Ok (t, sha), (w1, evs1))"
    and rest: "cherryPickLoop host b commits (Commit (Some sha) (Message hc) t (Parents hc)) (w1, evs1)
        = (Ok hc', (w', evs'))"
    by (auto split: prod.splits result.splits)
  from cherryPickCommit_host_Ok[OF step Cons.prems(2)] obtain sib mrg ts tm ps cs msg where
    s: "Message commit = Some msg"
    "objects w1 = objects w @
        [(sib, \<lparr>objMessage = ''temp'', objTree = ts, objParents = [ps]\<rparr>),
         (mrg, \<lparr>objMessage = ''Merge'', objTree = tm, objParents = [sib, cs]\<rparr>),
         (sha, \<lparr>objMessage = msg, objTree = tm, objParents = [h]\<rparr>)]"
    "refs w1 = (refs w)(branchRefPrefix @ b \<mapsto> sha)"
    "distinct [sib, mrg, sha]" "sib \<notin> set (shas w)" "mrg \<notin> set (shas w)" "sha \<notin> set (shas w)"
    "ps \<in> set (shas w)" "cs \<in> set (shas w @ [sib])"
    by blast
  let ?triple = "[(sib, \<lparr>objMessage = ''temp'', objTree = ts, objParents = [ps]\<rparr>),
         (mrg, \<lparr>objMessage = ''Merge'', objTree = tm, objParents = [sib, cs]\<rparr>),
         (sha, \<lparr>objMessage = msg, objTree = tm, objParents = [h]\<rparr>)]"
  have shas1: "shas w1 = shas w @ [sib, mrg, sha]" using s(2) by (simp add: shas_def)
  then have in1: "sha \<in> set (shas w1)" by simp
  from Cons.IH[OF rest _ in1] obtain picked new where
    ih: "length picked = length commits" "objects w' = objects w1 @ new"
    "length new = 3 * length commits" "distinct picked" "set picked \<subseteq> fst ` set new"
    "fst ` set new \<inter> set (shas w1) = {}"
    "refs w' = (if commits = [] then refs w1 else (refs w1)(branchRefPrefix @ b \<mapsto> last picked))"
    "\<forall>i<length commits. \<exists>ob. map_of (objects w') (picked ! i) = Some ob \<and>
        Message (commits ! i) = Some (objMessage ob) \<and> objParents ob = [(sha # picked) ! i]"
    "ancestors w' (last (sha # picked)) = set picked \<union> ancestors w1 sha"
    "SHA hc' = Some (last (sha # picked))" "chronological w1 \<longrightarrow> chronological w'"
    by auto
  have chrono: "chronological w \<longrightarrow> chronological w'"
    using ih(11) chronological_step[OF _ s(2) s(4) s(5) s(6) s(7) s(8) s(9) Cons.prems(3)] by blast
  have anc1: "ancestors w1 sha = insert sha (ancestors w h)"
    using ancestors_step[OF s(2) s(4) s(5) s(6) s(7) Cons.prems(3)] .
  have notin: "sha \<notin> set picked" using ih(5,6) in1 by auto
  have first: "map_of (objects w') sha = Some \<lparr>objMessage = msg, objTree = tm, objParents = [h]\<rparr>"
  proof -
    have "map_of (objects w') sha = map_of (objects w1) sha"
      using ih(2) in1 map_of_append_old[of sha "objects w1" new] by (simp add: shas_def)
    also have "\<dots> = map_of ?triple sha"
      using s(2) s(7) map_of_append_new[of sha "objects w" ?triple] by (simp add: shas_def)
    also have "\<dots> = Some \<lparr>objMessage = msg, objTree = tm, objParents = [h]\<rparr>"
      using s(4) by auto
    finally show ?thesis .
  qed
  have each: "\<forall>i<length (commit # commits). \<exists>ob. map_of (objects w') ((sha # picked) ! i) = Some ob \<and>
        Message ((commit # commits) ! i) = Some (objMessage ob) \<and>
        objParents ob = [(h # sha # picked) ! i]"
  proof (intro allI impI)
    fix i assume "i < length (commit # commits)"
    show "\<exists>ob. map_of (objects w') ((sha # picked) ! i) = Some ob \<and>
        Message ((commit # commits) ! i) = Some (objMessage ob) \<and>
        objParents ob = [(h # sha # picked) ! i]"
    proof (cases i)
      case 0
      with first s(1) show ?thesis by simp
    next
      case (Suc j)
      with \<open>i < length (commit # commits)\<close> have "j < length commits" by simp
      with ih(8) Suc show ?thesis by simp
    qed
  qed
  have refs: "refs w' = (refs w)(branchRefPrefix @ b \<mapsto> last (sha # picked))"
    using ih(1,7) s(3) by (cases commits) auto
  have fresh: "fst ` set (?triple @ new) \<inter> set (shas w) = {}"
    using ih(6) shas1 s(5,6,7) by auto
  have "length (sha # picked) = length (commit # commits)" using ih(1) by simp
  moreover have "objects w' = objects w @ (?triple @ new)" using ih(2) s(2) by simp
  moreover have "length (?triple @ new) = 3 * length (commit # commits)" using ih(3) by simp
  moreover have "distinct (sha # picked)" using ih(4) notin by simp
  moreover have "set (sha # picked) \<subseteq> fst ` set (?triple @ new)" using ih(5) by auto
  moreover have "ancestors w' (last (h # sha # picked)) = set (sha # picked) \<union> ancestors w h"
    using ih(9) anc1 by simp
  moreover have "SHA hc' = Some (last (h # sha # picked))" using ih(10) by simp
  ultimately show ?case using fresh refs each chrono
    by (intro exI[of _ "sha # picked"] exI[of _ "?triple @ new"]) simp
qed

lemma parentsFirst_closed:
  "parentsFirst objs \<Longrightarrow> (k, ob) \<in> set objs \<Longrightarrow> set (objParents ob) \<subseteq> fst ` set objs"
  by (induction objs) auto

lemma reachable_absent:
  assumes "reachable objs k k'" "k \<notin> fst ` set objs"
  shows "k' = k"
  using assms by (induction rule: reachable.induct) (auto intro: rev_image_eqI)

lemma reachable_older:
  assumes "parentsFirst (kv # older)" "k \<noteq> fst kv"
  shows "reachable (kv # older) k k' = reachable older k k'"
proof
  assume "reachable (kv # older) k k'"
  then show "reachable older k k'" using assms(2)
  proof (induction rule: reachable.induct)
    case (self k)
    show ?case by (rule reachable.self)
  next
    case (parent k ob p k')
    then have in_older: "(k, ob) \<in> set older" by auto
    from assms(1) have "parentsFirst older" "fst kv \<notin> fst ` set older" by simp_all
    with parentsFirst_closed[OF _ in_older] parent(2) have "p \<noteq> fst kv" by auto
    with parent.IH have "reachable older p k'" by simp
    with in_older parent(2) show ?case by (rule reachable.parent)
  qed
next
  assume "reachable older k k'"
  then show "reachable (kv # older) k k'"
    by (induction rule: reachable.induct) (auto intro: reachable.intros)
qed

lemma reachable_newest:
  assumes "parentsFirst (kv # older)"
  shows "reachable (kv # older) (fst kv) k' =
     (k' = fst kv \<or> (\<exists>p \<in> set (objParents (snd kv)). reachable older p k'))"
proof
  assume "reachable (kv # older) (fst kv) k'"
  then show "k' = fst kv \<or> (\<exists>p \<in> set (objParents (snd kv)). reachable older p k')"
  proof (cases rule: reachable.cases)
    case self
    then show ?thesis by simp
  next
    case (parent ob p)
    from assms have fresh: "fst kv \<notin> fst ` set older"
      and held: "set (objParents (snd kv)) \<subseteq> fst ` set older" by simp_all
    from parent(1) fresh have ob: "ob = snd kv" by (cases kv) (auto intro: rev_image_eqI)
    with parent(2) held fresh have "p \<noteq> fst kv" by auto
    with reachable_older[OF assms] parent(3) have "reachable older p k'" by simp
    with parent(2) ob show ?thesis by auto
  qed
next
  assume "k' = fst kv \<or> (\<exists>p \<in> set (objParents (snd kv)). reachable older p k')"
  then show "reachable (kv # older) (fst kv) k'"
  proof
    assume "k' = fst kv"
    then show ?thesis by (simp add: reachable.self)
  next
    assume "\<exists>p \<in> set (objParents (snd kv)). reachable older p k'"
    then obtain p where p: "p \<in> set (objParents (snd kv))" "reachable older p k'" by blast
    from assms have "fst kv \<notin> fst ` set older" "set (objParents (snd kv)) \<subseteq> fst ` set older"
      by simp_all
    with p(1) have "p \<noteq> fst kv" by auto
    with reachable_older[OF assms] p(2) have "reachable (kv # older) p k'" by simp
    moreover have "(fst kv, snd kv) \<in> set (kv # older)" by simp
    ultimately show ?thesis using p(1) by (rule reachable.parent[rotated 2])
  qed
qed

lemma mark_reachable:
  "parentsFirst objs \<Longrightarrow> mark objs S = {k'. \<exists>k \<in> S. reachable objs k k'}"
proof (induction objs arbitrary: S)
  case Nil
  have "\<And>k k'. reachable [] k k' = (k' = k)"
    by (auto intro: reachable.self dest: reachable_absent)
  then show ?case by auto
next
  case (Cons kv older)
  then have pf: "parentsFirst older" and fresh: "fst kv \<notin> fst ` set older" by simp_all
  note older = reachable_older[OF Cons.prems]
  note newest = reachable_newest[OF Cons.prems]
  have lone: "\<And>k'. reachable older (fst kv) k' = (k' = fst kv)"
    using fresh by (auto intro: reachable.self dest: reachable_absent)
  show ?case
  proof (cases "fst kv \<in> S")
    case True
    have "mark (kv # older) S = {k'. \<exists>k \<in> S \<union> set (objParents (snd kv)). reachable older k k'}"
      using True Cons.IH[OF pf] by simp
    also have "\<dots> = {k'. \<exists>k \<in> S. reachable (kv # older) k k'}"
    proof (intro set_eqI iffI; clarify)
      fix k' k assume k: "k \<in> S \<union> set (objParents (snd kv))" "reachable older k k'"
      show "\<exists>k \<in> S. reachable (kv # older) k k'"
      proof (cases "k \<in> set (objParents (snd kv))")
        case True
        with k(2) newest have "reachable (kv # older) (fst kv) k'" by blast
        with \<open>fst kv \<in> S\<close> show ?thesis by blast
      next
        case False
        with k(1) have "k \<in> S" by simp
        show ?thesis
        proof (cases "k = fst kv")
          case True
          with k(2) lone have "k' = fst kv" by simp
          with \<open>fst kv \<in> S\<close> show ?thesis by (auto intro: reachable.self)
        next
          case False
          with older k(2) \<open>k \<in> S\<close> show ?thesis by blast
        qed
      qed
    next
      fix k' k assume k: "k \<in> S" "reachable (kv # older) k k'"
      show "\<exists>k \<in> S \<union> set (objParents (snd kv)). reachable older k k'"
      proof (cases "k = fst kv")
        case True
        with k(2) newest have "k' = fst kv \<or> (\<exists>p \<in> set (objParents (snd kv)). reachable older p k')"
          by simp
        then show ?thesis
        proof
          assume "k' = fst kv"
          with \<open>fst kv \<in> S\<close> lone show ?thesis by blast
        next
          assume "\<exists>p \<in> set (objParents (snd kv)). reachable older p k'"
          then show ?thesis by blast
        qed
      next
        case False
        with older k show ?thesis by blast
      qed
    qed
    finally show ?thesis .
  next
    case False
    have "mark (kv # older) S = {k'. \<exists>k \<in> S. reachable older k k'}"
      using False Cons.IH[OF pf] by simp
    also have "\<dots> = {k'. \<exists>k \<in> S. reachable (kv # older) k k'}"
      using False older by (metis (no_types, lifting))
    finally show ?thesis .
  qed
qed

lemma reachable_rev: "reachable (rev objs) k k' = reachable objs k k'"
proof
  assume "reachable (rev objs) k k'"
  then show "reachable objs k k'"
    by (induction rule: reachable.induct) (auto intro: reachable.intros)
next
  assume "reachable objs k k'"
  then show "reachable (rev objs) k k'"
    by (induction rule: reachable.induct) (auto intro: reachable.intros)
qed

lemma ancestors_reachable:
  "chronological w \<Longrightarrow> ancestors w h = {k. reachable (objects w) h k}"
  by (simp add: chronological_def ancestors_def mark_reachable reachable_rev)


lemma ahead_reachable:
  "chronological w \<Longrightarrow>
   set (ahead w b h) =
     {k \<in> set (shas w). reachable (objects w) h k \<and> \<not> reachable (objects w) b k}"
  by (auto simp: ahead_def ancestors_reachable)

lemma chronological_distinct: "chronological w \<Longrightarrow> distinct (shas w)"
proof -
  have "parentsFirst objs \<Longrightarrow> distinct (map fst objs)" for objs
    by (induction objs) auto
  from this[of "rev (objects w)"] show "chronological w \<Longrightarrow> distinct (shas w)"
    by (simp add: chronological_def shas_def flip: rev_map)
qed

lemma mark_subset: "parentsFirst objs \<Longrightarrow> mark objs S \<subseteq> S \<union> fst ` set objs"
proof (induction objs arbitrary: S)
  case Nil
  show ?case by simp
next
  case (Cons kv objs)
  then have "mark objs (if fst kv \<in> S then S \<union> set (objParents (snd kv)) else S)
      \<subseteq> (if fst kv \<in> S then S \<union> set (objParents (snd kv)) else S) \<union> fst ` set objs"
    by simp
  with Cons.prems show ?case by (auto split: if_splits)
qed

lemma ancestors_held:
  assumes "chronological w" "h \<in> set (shas w)"
  shows "ancestors w h \<subseteq> set (shas w)"
  using mark_subset[of "rev (objects w)" "{h}"] assms
  by (auto simp: chronological_def ancestors_def shas_def)

subsection \<open>The resolver on the remote of the model\<close>

lemma ListCommits_host:
  assumes "resolve w bn = Some h"
  shows "\<exists>ev. Repositories_ListCommits host bn page perPage (w, evs) =
     (Ok (map summary (take perPage (drop ((max page 1 - 1) * perPage) (history w h))),
          if max page 1 * perPage < length (history w h) then max page 1 + 1 else 0),
      (w, evs @ [ev]))"
  using assms
  by (simp add: Repositories_ListCommits_def perform_def host_def hostListCommits_def Let_def
      summary_def)

lemma listPages_host:
  assumes "resolve w bn = Some h"
  shows "\<exists>evs'. listPages host bn page acc (w, evs) =
     Some (Ok (acc @ map summary (drop ((max page 1 - 1) * perPage) (history w h))), (w, evs @ evs'))"
proof (induction "length (history w h) - (max page 1 - 1) * perPage" arbitrary: page acc evs
    rule: less_induct)
  case less
  let ?H = "history w h"
  let ?p = "max page 1"
  from ListCommits_host[OF assms, of page evs] obtain ev where
    l: "Repositories_ListCommits host bn page perPage (w, evs) =
     (Ok (map summary (take perPage (drop ((?p - 1) * perPage) ?H)),
          if ?p * perPage < length ?H then ?p + 1 else 0), (w, evs @ [ev]))" by blast
  show ?case
  proof (cases "?p * perPage < length ?H")
    case True
    have p1: "1 \<le> ?p" by simp
    have mp: "max (?p + 1) 1 - 1 = ?p" by simp
    have pp: "?p * perPage = perPage + (?p - 1) * perPage"
      using p1 by (metis add.commute le_add_diff_inverse2 mult_Suc Suc_eq_plus1)
    have dec: "length ?H - (max (?p + 1) 1 - 1) * perPage < length ?H - (?p - 1) * perPage"
    proof -
      have "0 < perPage" by (simp add: perPage_def)
      with True pp show ?thesis unfolding mp by arith
    qed
    from less[OF dec, of "acc @ map summary (take perPage (drop ((?p - 1) * perPage) ?H))" "evs @ [ev]"]
    obtain evs' where
      ih: "listPages host bn (?p + 1) (acc @ map summary (take perPage (drop ((?p - 1) * perPage) ?H)))
            (w, evs @ [ev]) =
          Some (Ok ((acc @ map summary (take perPage (drop ((?p - 1) * perPage) ?H))) @
                  map summary (drop ((max (?p + 1) 1 - 1) * perPage) ?H)), (w, (evs @ [ev]) @ evs'))"
      by blast
    have "take perPage (drop ((?p - 1) * perPage) ?H) @ drop (?p * perPage) ?H
        = drop ((?p - 1) * perPage) ?H"
    proof -
      have "drop (?p * perPage) ?H = drop perPage (drop ((?p - 1) * perPage) ?H)"
        unfolding drop_drop using pp by simp
      then show ?thesis by (simp only: append_take_drop_id)
    qed
    then have "(acc @ map summary (take perPage (drop ((?p - 1) * perPage) ?H))) @
                  map summary (drop ((max (?p + 1) 1 - 1) * perPage) ?H)
        = acc @ map summary (drop ((?p - 1) * perPage) ?H)"
      unfolding mp by (simp only: append_assoc flip: map_append)
    with ih have "listPages host bn (?p + 1) (acc @ map summary (take perPage (drop ((?p - 1) * perPage) ?H)))
            (w, evs @ [ev]) =
          Some (Ok (acc @ map summary (drop ((?p - 1) * perPage) ?H)), (w, evs @ ([ev] @ evs')))"
      by simp
    moreover have "listPages host bn page acc (w, evs) =
       listPages host bn (?p + 1) (acc @ map summary (take perPage (drop ((?p - 1) * perPage) ?H)))
            (w, evs @ [ev])"
      by (subst listPages.simps) (simp only: l True if_True prod.case result.case, simp)
    ultimately show ?thesis by (intro exI[of _ "[ev] @ evs'"]) (simp only:)
  next
    case False
    have p1: "1 \<le> ?p" by simp
    have pp: "?p * perPage = perPage + (?p - 1) * perPage"
      using p1 by (metis add.commute le_add_diff_inverse2 mult_Suc Suc_eq_plus1)
    from False pp have "length (drop ((?p - 1) * perPage) ?H) \<le> perPage" by simp
    then have tk: "take perPage (drop ((?p - 1) * perPage) ?H) = drop ((?p - 1) * perPage) ?H"
      by (rule take_all)
    have "listPages host bn page acc (w, evs) =
       Some (Ok (acc @ map summary (drop ((?p - 1) * perPage) ?H)), (w, evs @ [ev]))"
      by (subst listPages.simps) (simp only: l False if_False prod.case result.case tk, simp)
    then show ?thesis by blast
  qed
qed

lemma getCommit_host_held:
  assumes "map_of (objects w) k = Some ob"
  shows "getCommit host k (w, evs) =
     (Ok (asCommit (k, ob)), (w, evs @ [(GetCommitReq k, GotCommit (asCommit (k, ob)), w)]))"
  using assms
  by (simp add: getCommit_def Git_GetCommit_def perform_def host_def hostGetCommit_def)

lemma RepoGetSHA_summary [simp]: "RepoGetSHA (summary k) = k"
  by (simp add: RepoGetSHA_def summary_def)

lemma diffLoop_host_absent:
  "k \<notin> set D \<Longrightarrow> diffLoop host (summary k) (map summary D) acc s = (Ok acc, s)"
  by (induction D) auto

lemma diffLoop_host_present:
  assumes "distinct D" "k \<in> set D" "map_of (objects w) k = Some ob"
  shows "diffLoop host (summary k) (map summary D) acc (w, evs) =
     (if length (objParents ob) \<noteq> 1 then Err (Errorf ''merge commits are not supported.'')
      else Ok (acc @ [asCommit (k, ob)]),
      (w, evs @ [(GetCommitReq k, GotCommit (asCommit (k, ob)), w)]))"
  using assms(1,2)
proof (induction D)
  case Nil
  then show ?case by simp
next
  case (Cons d D)
  show ?case
  proof (cases "d = k")
    case True
    with Cons.prems have "k \<notin> set D" by simp
    with True show ?thesis
      by (simp add: getCommit_host_held[OF assms(3)] diffLoop_host_absent asCommit_def)
  next
    case False
    with Cons show ?thesis by simp
  qed
qed

lemma repoLoop_host:
  assumes "distinct D" "\<forall>kv \<in> set kvs. map_of (objects w) (fst kv) = Some (snd kv)"
  shows "\<exists>evs'. repoLoop host (map (\<lambda>kv. summary (fst kv)) kvs) (map summary D) acc (w, evs) =
     (if \<exists>kv \<in> set kvs. fst kv \<in> set D \<and> length (objParents (snd kv)) \<noteq> 1
      then Err (Errorf ''merge commits are not supported.'')
      else Ok (acc @ map asCommit (filter (\<lambda>kv. fst kv \<in> set D) kvs)),
      (w, evs @ evs'))"
  using assms(2)
proof (induction kvs arbitrary: acc evs)
  case Nil
  show ?case by simp
next
  case (Cons kv kvs)
  then have held: "map_of (objects w) (fst kv) = Some (snd kv)"
    and rest: "\<forall>kv \<in> set kvs. map_of (objects w) (fst kv) = Some (snd kv)" by simp_all
  show ?case
  proof (cases "fst kv \<in> set D")
    case False
    from Cons.IH[OF rest, of acc evs] obtain evs' where
      ih: "repoLoop host (map (\<lambda>kv. summary (fst kv)) kvs) (map summary D) acc (w, evs) =
        (if \<exists>kv \<in> set kvs. fst kv \<in> set D \<and> length (objParents (snd kv)) \<noteq> 1
         then Err (Errorf ''merge commits are not supported.'')
         else Ok (acc @ map asCommit (filter (\<lambda>kv. fst kv \<in> set D) kvs)),
         (w, evs @ evs'))" by blast
    have 1: "repoLoop host (map (\<lambda>kv. summary (fst kv)) (kv # kvs)) (map summary D) acc (w, evs) =
        repoLoop host (map (\<lambda>kv. summary (fst kv)) kvs) (map summary D) acc (w, evs)"
      using False by (simp add: diffLoop_host_absent)
    have 2: "(\<exists>x \<in> set (kv # kvs). fst x \<in> set D \<and> length (objParents (snd x)) \<noteq> 1) =
        (\<exists>x \<in> set kvs. fst x \<in> set D \<and> length (objParents (snd x)) \<noteq> 1)"
      using False by auto
    have 3: "filter (\<lambda>kv. fst kv \<in> set D) (kv # kvs) = filter (\<lambda>kv. fst kv \<in> set D) kvs"
      using False by simp
    show ?thesis unfolding 1 2 3 using ih by blast
  next
    case True
    note d = diffLoop_host_present[OF assms(1) True held, of acc evs]
    show ?thesis
    proof (cases "length (objParents (snd kv)) = 1")
      case False
      have 1: "\<exists>x \<in> set (kv # kvs). fst x \<in> set D \<and> length (objParents (snd x)) \<noteq> 1"
        using False True by auto
      have "repoLoop host (map (\<lambda>kv. summary (fst kv)) (kv # kvs)) (map summary D) acc (w, evs) =
          (Err (Errorf ''merge commits are not supported.''),
           (w, evs @ [(GetCommitReq (fst kv), GotCommit (asCommit (fst kv, snd kv)), w)]))"
        using d False by simp
      with 1 show ?thesis by (simp only: if_True) blast
    next
      case one: True
      from Cons.IH[OF rest, of "acc @ [asCommit (fst kv, snd kv)]"
          "evs @ [(GetCommitReq (fst kv), GotCommit (asCommit (fst kv, snd kv)), w)]"]
      obtain evs' where ih: "repoLoop host (map (\<lambda>kv. summary (fst kv)) kvs) (map summary D)
          (acc @ [asCommit (fst kv, snd kv)])
          (w, evs @ [(GetCommitReq (fst kv), GotCommit (asCommit (fst kv, snd kv)), w)]) =
        (if \<exists>kv \<in> set kvs. fst kv \<in> set D \<and> length (objParents (snd kv)) \<noteq> 1
         then Err (Errorf ''merge commits are not supported.'')
         else Ok ((acc @ [asCommit (fst kv, snd kv)]) @ map asCommit (filter (\<lambda>kv. fst kv \<in> set D) kvs)),
         (w, (evs @ [(GetCommitReq (fst kv), GotCommit (asCommit (fst kv, snd kv)), w)]) @ evs'))"
        by blast
      have 1: "repoLoop host (map (\<lambda>kv. summary (fst kv)) (kv # kvs)) (map summary D) acc (w, evs) =
          repoLoop host (map (\<lambda>kv. summary (fst kv)) kvs) (map summary D)
          (acc @ [asCommit (fst kv, snd kv)])
          (w, evs @ [(GetCommitReq (fst kv), GotCommit (asCommit (fst kv, snd kv)), w)])"
        using d one by simp
      have 2: "(\<exists>x \<in> set (kv # kvs). fst x \<in> set D \<and> length (objParents (snd x)) \<noteq> 1) =
          (\<exists>x \<in> set kvs. fst x \<in> set D \<and> length (objParents (snd x)) \<noteq> 1)"
        using one by auto
      have 3: "acc @ map asCommit (filter (\<lambda>kv. fst kv \<in> set D) (kv # kvs)) =
          (acc @ [asCommit (fst kv, snd kv)]) @ map asCommit (filter (\<lambda>kv. fst kv \<in> set D) kvs)"
        using True by simp
      show ?thesis unfolding 1 2 3 using ih
        by (intro exI[of _ "[(GetCommitReq (fst kv), GotCommit (asCommit (fst kv, snd kv)), w)] @ evs'"])
           (simp only: append_assoc)
    qed
  qed
qed

text \<open>What \<open>GetBranchCommits\<close> computes on the remote of the model.\<close>

lemma GetBranchCommits_host:
  assumes "distinct (shas w)"
    and "resolve w ''master'' = Some b" and "resolve w branchName = Some h"
  shows "\<exists>evs'. GetBranchCommits host branchName (w, evs) =
     Some (if \<exists>kv \<in> set (objects w). fst kv \<in> set (ahead w b h) \<and> length (objParents (snd kv)) \<noteq> 1
           then Err (Errorf ''merge commits are not supported.'')
           else Ok (map asCommit (filter (\<lambda>kv. fst kv \<in> set (ahead w b h)) (objects w))),
           (w, evs @ evs'))"
proof -
  let ?kvs = "filter (\<lambda>kv. fst kv \<in> ancestors w h) (objects w)"
  let ?D = "ahead w b h"
  have listed: "map summary (history w h) = map (\<lambda>kv. summary (fst kv)) ?kvs"
    by (simp add: history_def shas_def filter_map comp_def)
  from listPages_host[OF assms(3), of 0 "[]" evs] obtain evs1 where
    l: "getBranchCommits host branchName (w, evs) =
        Some (Ok (map (\<lambda>kv. summary (fst kv)) ?kvs), (w, evs @ evs1))"
    by (auto simp: getBranchCommits_def listed)
  obtain ev where c: "Repositories_CompareCommits host ''master'' branchName (w, evs @ evs1) =
      (Ok (map summary ?D), (w, (evs @ evs1) @ [ev]))"
    using assms(2,3)
    by (simp add: Repositories_CompareCommits_def perform_def host_def hostCompareCommits_def
        summary_def)
  have dD: "distinct ?D" using assms(1) by (simp add: ahead_def)
  have held: "\<forall>kv \<in> set ?kvs. map_of (objects w) (fst kv) = Some (snd kv)"
    using assms(1) by (auto simp: shas_def intro: map_of_is_SomeI)
  from repoLoop_host[OF dD held, of "[]" "(evs @ evs1) @ [ev]"] obtain evs3 where
    r: "repoLoop host (map (\<lambda>kv. summary (fst kv)) ?kvs) (map summary ?D) [] (w, (evs @ evs1) @ [ev]) =
     (if \<exists>kv \<in> set ?kvs. fst kv \<in> set ?D \<and> length (objParents (snd kv)) \<noteq> 1
      then Err (Errorf ''merge commits are not supported.'')
      else Ok ([] @ map asCommit (filter (\<lambda>kv. fst kv \<in> set ?D) ?kvs)),
      (w, ((evs @ evs1) @ [ev]) @ evs3))" by blast
  have sub: "\<And>k. k \<in> set ?D \<Longrightarrow> k \<in> ancestors w h" by (simp add: ahead_def)
  have e1: "(\<exists>kv \<in> set ?kvs. fst kv \<in> set ?D \<and> length (objParents (snd kv)) \<noteq> 1) =
      (\<exists>kv \<in> set (objects w). fst kv \<in> set ?D \<and> length (objParents (snd kv)) \<noteq> 1)"
    using sub by fastforce
  have e2: "filter (\<lambda>kv. fst kv \<in> set ?D) ?kvs = filter (\<lambda>kv. fst kv \<in> set ?D) (objects w)"
    using sub by (auto intro: filter_cong)
  from l c r show ?thesis
    unfolding GetBranchCommits_def e1 e2
    by (intro exI[of _ "evs1 @ [ev] @ evs3"]) simp
qed

lemma GetSHA_asCommit [simp]: "GetSHA (asCommit kv) = fst kv"
  by (simp add: GetSHA_def asCommit_def)

lemma ahead_listed:
  "map fst (filter (\<lambda>kv. fst kv \<in> set (ahead w b h)) (objects w)) = ahead w b h"
proof -
  have "filter (\<lambda>k. k \<in> set (ahead w b h)) (shas w) = ahead w b h"
    by (auto simp: ahead_def intro: filter_cong)
  then show ?thesis by (simp add: shas_def filter_map comp_def)
qed

subsection \<open>The order of a chronological store\<close>

text \<open>
  In a chronological store no object reaches a later one, and two commits reachable
  from the same head are ancestor and descendant of each other as soon as every commit
  on the way to one of them has a single parent.
\<close>

lemma reachable_trans:
  "reachable objs a b \<Longrightarrow> reachable objs b c \<Longrightarrow> reachable objs a c"
  by (induction rule: reachable.induct) (auto intro: reachable.intros)

lemma reachable_within:
  "parentsFirst objs \<Longrightarrow> reachable objs k k' \<Longrightarrow> k' = k \<or> k' \<in> fst ` set objs"
proof (induction objs arbitrary: k k')
  case Nil
  then show ?case by (auto dest: reachable_absent)
next
  case (Cons kv older)
  show ?case
  proof (cases "k = fst kv")
    case True
    with Cons.prems reachable_newest[OF Cons.prems(1)]
    have "k' = fst kv \<or> (\<exists>p \<in> set (objParents (snd kv)). reachable older p k')" by simp
    with Cons.IH Cons.prems(1) True show ?thesis by fastforce
  next
    case False
    with Cons.prems reachable_older[OF Cons.prems(1)] have "reachable older k k'" by blast
    with Cons.IH Cons.prems(1) show ?thesis by fastforce
  qed
qed

lemma parentsFirst_sorted:
  "parentsFirst objs \<Longrightarrow>
   sorted_wrt (\<lambda>newer older. \<not> reachable objs older newer) (map fst objs)"
proof (induction objs)
  case Nil
  show ?case by simp
next
  case (Cons kv older)
  then have pf: "parentsFirst older" and fresh: "fst kv \<notin> fst ` set older" by simp_all
  have 1: "\<forall>k \<in> set (map fst older). \<not> reachable (kv # older) k (fst kv)"
  proof
    fix k assume k: "k \<in> set (map fst older)"
    with fresh have ne: "k \<noteq> fst kv" by force
    show "\<not> reachable (kv # older) k (fst kv)"
    proof
      assume "reachable (kv # older) k (fst kv)"
      with ne reachable_older[OF Cons.prems] have "reachable older k (fst kv)" by blast
      from reachable_within[OF pf this] ne fresh show False by auto
    qed
  qed
  have 2: "sorted_wrt (\<lambda>newer older'. \<not> reachable (kv # older) older' newer) (map fst older)"
  proof (rule sorted_wrt_mono_rel[OF _ Cons.IH[OF pf]])
    fix x y assume "x \<in> set (map fst older)" "y \<in> set (map fst older)" "\<not> reachable older y x"
    moreover from this(2) fresh have "y \<noteq> fst kv" by force
    ultimately show "\<not> reachable (kv # older) y x"
      using reachable_older[OF Cons.prems] by simp
  qed
  from 1 2 show ?case by simp
qed

lemma reachable_comparable:
  assumes "distinct (map fst objs)"
    and "reachable objs s x" and "reachable objs s k'"
    and "\<forall>y ob. reachable objs s y \<and> reachable objs y k' \<and> y \<noteq> k' \<and> (y, ob) \<in> set objs \<longrightarrow>
           length (objParents ob) = 1"
  shows "reachable objs x k' \<or> reachable objs k' x"
  using assms(2,3,4)
proof (induction rule: reachable.induct)
  case (self k)
  then show ?case by simp
next
  case (parent k ob p x)
  show ?case
  proof (cases "k = k'")
    case True
    with parent.hyps show ?thesis by (auto intro: reachable.parent)
  next
    case False
    with parent.prems(1) obtain ob' p' where
      o: "(k, ob') \<in> set objs" "p' \<in> set (objParents ob')" "reachable objs p' k'"
      by (auto elim: reachable.cases)
    from o(1) parent.hyps(1) assms(1) have "ob' = ob"
      by (meson eq_key_imp_eq_value)
    moreover from parent.prems(2) False parent.prems(1) parent.hyps(1)
    have "length (objParents ob) = 1" by (blast intro: reachable.self)
    ultimately have "p' = p" using o(2) parent.hyps(2)
      by (cases "objParents ob") auto
    with o(3) have r: "reachable objs p k'" by simp
    have "\<forall>y ob. reachable objs p y \<and> reachable objs y k' \<and> y \<noteq> k' \<and> (y, ob) \<in> set objs \<longrightarrow>
        length (objParents ob) = 1"
      using parent.prems(2) parent.hyps(1,2) by (blast intro: reachable.parent)
    from parent.IH[OF r this] show ?thesis .
  qed
qed

lemma shas_sorted:
  assumes "chronological w"
  shows "sorted_wrt (\<lambda>older newer. \<not> reachable (objects w) older newer) (shas w)"
proof -
  from assms have "sorted_wrt (\<lambda>newer older. \<not> reachable (rev (objects w)) older newer)
      (map fst (rev (objects w)))"
    unfolding chronological_def by (rule parentsFirst_sorted)
  then have "sorted_wrt (\<lambda>newer older. \<not> reachable (objects w) older newer) (rev (shas w))"
    by (simp add: shas_def reachable_rev rev_map)
  then show ?thesis
    by (simp only: sorted_wrt_rev)
qed

lemma ahead_sorted:
  assumes "chronological w"
    and "\<forall>kv \<in> set (objects w). fst kv \<in> set (ahead w b h) \<longrightarrow> length (objParents (snd kv)) = 1"
  shows "sorted_wrt (\<lambda>older newer. older \<noteq> newer \<and> reachable (objects w) newer older) (ahead w b h)"
proof -
  have "sorted_wrt (\<lambda>older newer. \<not> reachable (objects w) older newer) (ahead w b h)"
    unfolding ahead_def by (rule sorted_wrt_filter) (rule shas_sorted[OF assms(1)])
  then show ?thesis
  proof (rule sorted_wrt_mono_rel[rotated])
    fix x y
    assume x: "x \<in> set (ahead w b h)" and y: "y \<in> set (ahead w b h)"
      and n: "\<not> reachable (objects w) x y"
    note A = ahead_reachable[OF assms(1), of b h]
    from x y A have hx: "reachable (objects w) h x" and hy: "reachable (objects w) h y"
      and by': "\<not> reachable (objects w) b y" by auto
    have single: "\<forall>z ob. reachable (objects w) h z \<and> reachable (objects w) z y \<and> z \<noteq> y \<and>
        (z, ob) \<in> set (objects w) \<longrightarrow> length (objParents ob) = 1"
    proof (intro allI impI)
      fix z ob
      assume z: "reachable (objects w) h z \<and> reachable (objects w) z y \<and> z \<noteq> y \<and>
        (z, ob) \<in> set (objects w)"
      then have "\<not> reachable (objects w) b z" using by' reachable_trans by blast
      moreover from z have "z \<in> set (shas w)" by (force simp: shas_def)
      ultimately have "z \<in> set (ahead w b h)" using z A by simp
      with assms(2) z show "length (objParents ob) = 1" by force
    qed
    from chronological_distinct[OF assms(1)] have "distinct (map fst (objects w))"
      by (simp add: shas_def)
    from reachable_comparable[OF this hx hy single] n
    have "reachable (objects w) y x" by simp
    moreover from n have "x \<noteq> y" by (auto intro: reachable.self)
    ultimately show "x \<noteq> y \<and> reachable (objects w) y x" by simp
  qed
qed

section \<open>The claims\<close>

text \<open>
  C1: on the remote of the model, with a chronological store, a run of
  \<open>CherryPickCommitsOnBranch\<close> that returns no error (no call failed) for a list
  of N commits has added 3N objects to the store, N of them (\<open>picked\<close>, new and
  distinct) being the picked commits: the i-th carries the message of the i-th commit
  of the list and has one parent, the (i-1)-th picked commit, or the head the branch
  was given with for the first. The branch points at the last of them, and the commits
  reachable from it are the N picked commits and what was reachable from the original
  head before: none of the other 2N objects the run created (the siblings and the merge
  commits) is reachable. The theorem needs no assumption on the parents of the commits
  of the list: a run that succeeds has found a first parent for each.
\<close>

theorem replay_appends_linear_history:
  assumes "Name branch = Some branchName"
    and "HeadCommit branch = Some branchCommit"
    and "RepoSHA branchCommit = Some headSHA"
    and "chronological w"
    and "CherryPickCommitsOnBranch host branch commits (w, evs) = (Ok (), (w', evs'))"
  shows "\<exists>picked.
      length picked = length commits \<and> distinct picked \<and> set picked \<inter> set (shas w) = {} \<and>
      take (length (objects w)) (objects w') = objects w \<and>
      length (objects w') = length (objects w) + 3 * length commits \<and>
      refs w' (''refs/heads/'' @ branchName) =
        (if commits = [] then refs w (''refs/heads/'' @ branchName) else Some (last picked)) \<and>
      (\<forall>i<length commits. \<exists>ob. map_of (objects w') (picked ! i) = Some ob \<and>
         Message (commits ! i) = Some (objMessage ob) \<and> objParents ob = [(headSHA # picked) ! i]) \<and>
      (\<forall>k. reachable (objects w') (last (headSHA # picked)) k =
         (k \<in> set picked \<or> reachable (objects w) headSHA k)) \<and>
      (\<forall>k \<in> set (shas w') - set (shas w) - set picked.
         \<not> reachable (objects w') (last (headSHA # picked)) k)"
proof -
  from assms obtain headCommit s0 hc' where
    g: "getCommit host headSHA (w, evs) = (Ok headCommit, s0)"
    and l: "cherryPickLoop host branchName commits headCommit s0 = (Ok hc', (w', evs'))"
    by (auto simp: CherryPickCommitsOnBranch_def split: prod.splits result.splits)
  from getCommit_host_Ok[OF g] obtain ob where
    h: "map_of (objects w) headSHA = Some ob" "headCommit = asCommit (headSHA, ob)"
    "s0 = (w, evs @ [(GetCommitReq headSHA, GotCommit headCommit, w)])" by blast
  have hin: "headSHA \<in> set (shas w)"
    using h(1) by (auto simp: shas_def dest: map_of_SomeD intro: rev_image_eqI)
  have sha: "SHA headCommit = Some headSHA" using h(2) by (simp add: asCommit_def)
  from cherryPickLoop_host_Ok[OF l[unfolded h(3)] sha hin] assms(4) obtain picked new where
    r: "length picked = length commits" "objects w' = objects w @ new"
    "length new = 3 * length commits" "distinct picked" "set picked \<subseteq> fst ` set new"
    "fst ` set new \<inter> set (shas w) = {}"
    "refs w' = (if commits = [] then refs w else (refs w)(branchRefPrefix @ branchName \<mapsto> last picked))"
    "\<forall>i<length commits. \<exists>ob. map_of (objects w') (picked ! i) = Some ob \<and>
        Message (commits ! i) = Some (objMessage ob) \<and> objParents ob = [(headSHA # picked) ! i]"
    "ancestors w' (last (headSHA # picked)) = set picked \<union> ancestors w headSHA"
    "chronological w'"
    by blast
  have before: "ancestors w headSHA = {k. reachable (objects w) headSHA k}"
    using assms(4) by (rule ancestors_reachable)
  have after: "ancestors w' (last (headSHA # picked)) =
      {k. reachable (objects w') (last (headSHA # picked)) k}"
    using r(10) by (rule ancestors_reachable)
  have reach: "\<forall>k. reachable (objects w') (last (headSHA # picked)) k =
      (k \<in> set picked \<or> reachable (objects w) headSHA k)"
    using r(9) unfolding before after by blast
  have "set picked \<inter> set (shas w) = {}" using r(5,6) by auto
  moreover have "\<forall>k \<in> set (shas w') - set (shas w) - set picked.
      \<not> reachable (objects w') (last (headSHA # picked)) k"
    using reach ancestors_held[OF assms(4) hin] unfolding before by auto
  moreover have "refs w' (''refs/heads/'' @ branchName) =
        (if commits = [] then refs w (''refs/heads/'' @ branchName) else Some (last picked))"
    using r(7) by (simp add: branchRefPrefix_def)
  ultimately show ?thesis using r(1,2,3,4,8) reach
    by (intro exI[of _ picked]) simp
qed

theorem replay_appends_linear_history_witness:
  "Name release = Some ''release'' \<and> HeadCommit release = Some (RepositoryCommit (Some ''d'')) \<and>
   RepoSHA (RepositoryCommit (Some ''d'')) = Some ''d'' \<and> chronological scenario \<and>
   fst (CherryPickCommitsOnBranch host release [pickB, pickC] (scenario, [])) = Ok () \<and>
   refs (fst (snd (CherryPickCommitsOnBranch host release [pickB, pickC] (scenario, []))))
     ''refs/heads/release'' = Some ''0000000'' \<and>
   (\<exists>picked.
      length picked = length [pickB, pickC] \<and> distinct picked \<and>
      set picked \<inter> set (shas scenario) = {} \<and>
      take (length (objects scenario))
        (objects (fst (snd (CherryPickCommitsOnBranch host release [pickB, pickC] (scenario, [])))))
        = objects scenario \<and>
      length (objects (fst (snd (CherryPickCommitsOnBranch host release [pickB, pickC] (scenario, [])))))
        = length (objects scenario) + 3 * length [pickB, pickC] \<and>
      refs (fst (snd (CherryPickCommitsOnBranch host release [pickB, pickC] (scenario, []))))
        (''refs/heads/'' @ ''release'') =
        (if [pickB, pickC] = [] then refs scenario (''refs/heads/'' @ ''release'')
         else Some (last picked)) \<and>
      (\<forall>i<length [pickB, pickC]. \<exists>ob.
         map_of (objects (fst (snd (CherryPickCommitsOnBranch host release [pickB, pickC]
           (scenario, []))))) (picked ! i) = Some ob \<and>
         Message ([pickB, pickC] ! i) = Some (objMessage ob) \<and>
         objParents ob = [(''d'' # picked) ! i]) \<and>
      (\<forall>k. reachable (objects (fst (snd (CherryPickCommitsOnBranch host release [pickB, pickC]
              (scenario, []))))) (last (''d'' # picked)) k =
         (k \<in> set picked \<or> reachable (objects scenario) ''d'' k)) \<and>
      (\<forall>k \<in> set (shas (fst (snd (CherryPickCommitsOnBranch host release [pickB, pickC]
              (scenario, []))))) - set (shas scenario) - set picked.
         \<not> reachable (objects (fst (snd (CherryPickCommitsOnBranch host release [pickB, pickC]
              (scenario, []))))) (last (''d'' # picked)) k))"
proof -
  let ?run = "CherryPickCommitsOnBranch host release [pickB, pickC] (scenario, [])"
  have ok: "fst ?run = Ok ()"
    by (simp add: run_defs)
  have ref: "refs (fst (snd ?run)) ''refs/heads/release'' = Some ''0000000''"
    by (simp add: run_defs)
  have chrono: "chronological scenario"
    by (simp add: chronological_def scenario_def)
  have br: "Name release = Some ''release''"
    "HeadCommit release = Some (RepositoryCommit (Some ''d''))"
    "RepoSHA (RepositoryCommit (Some ''d'')) = Some ''d''"
    by (simp_all add: release_def)
  from ok have "?run = (Ok (), (fst (snd ?run), snd (snd ?run)))"
    by (metis prod.collapse)
  from br chrono ok ref replay_appends_linear_history [OF br chrono this]
  show ?thesis by (intro conjI)
qed

text \<open>
  C2: on the remote of the model (a chronological store in which \<open>master\<close> and the
  source branch resolve), if every commit reachable from the source branch and not from
  \<open>master\<close> has exactly one parent, \<open>GetBranchCommits\<close> returns exactly the commits
  reachable from the source branch and not from \<open>master\<close>, each once, and leaves the
  remote as it was. The list is the oldest first: it runs in the order in which the
  store received the commits, and every commit of it is a proper ancestor of every later
  one, so that the first is the oldest unmerged commit and each next one is one commit
  further from \<open>master\<close>. The client keeps the order in which the remote lists the
  branch; that the listing is in branch order is the spec's.
\<close>

theorem GetBranchCommits_oldest_first:
  assumes "chronological w"
    and "resolve w ''master'' = Some b" and "resolve w branchName = Some h"
    and "\<forall>kv \<in> set (objects w). fst kv \<in> set (ahead w b h) \<longrightarrow> length (objParents (snd kv)) = 1"
  shows "\<exists>commits evs'.
           GetBranchCommits host branchName (w, evs) = Some (Ok commits, (w, evs @ evs')) \<and>
           commits = map asCommit (filter (\<lambda>kv. fst kv \<in> set (ahead w b h)) (objects w)) \<and>
           set (map GetSHA commits) =
             {k \<in> set (shas w). reachable (objects w) h k \<and> \<not> reachable (objects w) b k} \<and>
           distinct (map GetSHA commits) \<and>
           map GetSHA commits = filter (\<lambda>k. k \<in> set (map GetSHA commits)) (shas w) \<and>
           sorted_wrt (\<lambda>older newer. older \<noteq> newer \<and> reachable (objects w) newer older)
             (map GetSHA commits)"
proof -
  let ?cs = "map asCommit (filter (\<lambda>kv. fst kv \<in> set (ahead w b h)) (objects w))"
  note d = chronological_distinct[OF assms(1)]
  from assms(4) have "\<not> (\<exists>kv \<in> set (objects w). fst kv \<in> set (ahead w b h) \<and>
      length (objParents (snd kv)) \<noteq> 1)" by blast
  with GetBranchCommits_host[OF d assms(2,3), of evs] obtain evs' where
    run: "GetBranchCommits host branchName (w, evs) = Some (Ok ?cs, (w, evs @ evs'))" by auto
  have shas: "map GetSHA ?cs = ahead w b h"
    using ahead_listed[of w b h] by (simp add: comp_def)
  have 1: "set (map GetSHA ?cs) =
      {k \<in> set (shas w). reachable (objects w) h k \<and> \<not> reachable (objects w) b k}"
    unfolding shas by (rule ahead_reachable[OF assms(1)])
  have 2: "distinct (map GetSHA ?cs)"
    unfolding shas using d by (simp add: ahead_def)
  have 3: "map GetSHA ?cs = filter (\<lambda>k. k \<in> set (map GetSHA ?cs)) (shas w)"
    unfolding shas by (auto simp: ahead_def intro: filter_cong)
  have 4: "sorted_wrt (\<lambda>older newer. older \<noteq> newer \<and> reachable (objects w) newer older)
      (map GetSHA ?cs)"
    unfolding shas by (rule ahead_sorted[OF assms(1,4)])
  from run 1 2 3 4 show ?thesis by blast
qed

theorem GetBranchCommits_oldest_first_witness:
  "chronological scenario \<and> resolve scenario ''master'' = Some ''a'' \<and>
   resolve scenario ''fix'' = Some ''c'' \<and>
   list_all (\<lambda>kv. fst kv \<notin> set (ahead scenario ''a'' ''c'') \<or> length (objParents (snd kv)) = 1)
     (objects scenario) \<and>
   map_option fst (GetBranchCommits host ''fix'' (scenario, [])) = Some (Ok [pickB, pickC]) \<and>
   map GetSHA (Parents pickC) = [GetSHA pickB] \<and>
   (\<exists>commits evs'.
      GetBranchCommits host ''fix'' (scenario, []) = Some (Ok commits, (scenario, [] @ evs')) \<and>
      commits = map asCommit (filter (\<lambda>kv. fst kv \<in> set (ahead scenario ''a'' ''c''))
                  (objects scenario)) \<and>
      set (map GetSHA commits) =
        {k \<in> set (shas scenario). reachable (objects scenario) ''c'' k \<and>
           \<not> reachable (objects scenario) ''a'' k} \<and>
      distinct (map GetSHA commits) \<and>
      map GetSHA commits = filter (\<lambda>k. k \<in> set (map GetSHA commits)) (shas scenario) \<and>
      sorted_wrt (\<lambda>older newer. older \<noteq> newer \<and> reachable (objects scenario) newer older)
        (map GetSHA commits))"
proof -
  have c: "chronological scenario"
    by (simp add: chronological_def scenario_defs)
  have r: "resolve scenario ''master'' = Some ''a''" "resolve scenario ''fix'' = Some ''c''"
    by (simp_all add: resolve_def scenario_defs)
  have a: "ahead scenario ''a'' ''c'' = [''b'', ''c'']"
    by (simp add: ahead_def ancestors_def scenario_defs)
  have p: "\<forall>kv \<in> set (objects scenario). fst kv \<in> set (ahead scenario ''a'' ''c'') \<longrightarrow>
      length (objParents (snd kv)) = 1"
    unfolding a by (simp add: scenario_def)
  have l: "list_all (\<lambda>kv. fst kv \<notin> set (ahead scenario ''a'' ''c'') \<or>
      length (objParents (snd kv)) = 1) (objects scenario)"
    unfolding a by (simp add: scenario_def)
  have run: "map_option fst (GetBranchCommits host ''fix'' (scenario, [])) = Some (Ok [pickB, pickC])"
    unfolding GetBranchCommits_def getBranchCommits_def
    by (subst listPages.simps)
       (simp add: call_defs helper_defs host_def hostListCommits_def hostCompareCommits_def
          hostGetCommit_def resolve_def history_def ahead_def ancestors_def perPage_def scenario_defs)
  have par: "map GetSHA (Parents pickC) = [GetSHA pickB]"
    by (simp add: scenario_defs)
  from c r l run par GetBranchCommits_oldest_first [OF c r p, of "[]"]
  show ?thesis by (intro conjI)
qed

text \<open>
  C3: let the head commit of the branch be read, the first k-1 commits of the list be
  replayed, and the replay of the k-th return an error. Then, whatever commits follow
  in the list, \<open>CherryPickCommitsOnBranch\<close> makes one more call, \<open>DeleteRef\<close> for
  \<open>refs/heads/\<close> and the branch's name, and returns the error of the step (unless
  that call panics): nothing is attempted for the commits after the k-th. The calls of
  the failed step end with the call that failed with that error; of the calls before
  it, at most six, the only one that moved a reference is the second, which set the
  branch to the sibling commit: the branch was not moved to a k-th picked commit.
\<close>

theorem failing_step_stops_replay:
  assumes "Name branch = Some branchName"
    and "HeadCommit branch = Some branchCommit"
    and "RepoSHA branchCommit = Some headSHA"
    and "getCommit c headSHA s = (Ok headCommit, s0)"
    and "cherryPickLoop c branchName picked headCommit s0 = (Ok headCommit', s1)"
    and "cherryPickCommit c branchName commit headCommit' s1 = (Err err, s2)"
  shows "\<exists>r w3 evs rq wl.
           DeleteRef c (''refs/heads/'' @ branchName) (fst s2) = (r, w3) \<and>
           CherryPickCommitsOnBranch c branch (picked @ commit # rest) s =
             ((case r of Panic p \<Rightarrow> Panic p | _ \<Rightarrow> Err err),
              (w3, snd s2 @ [(DeleteRefReq (''refs/heads/'' @ branchName),
                   (case r of Ok u \<Rightarrow> Done | Err e \<Rightarrow> Failed e | Panic p \<Rightarrow> Crashed p), w3)])) \<and>
           snd s2 = snd s1 @ evs \<and> evs \<noteq> [] \<and> last evs = (rq, Failed err, wl) \<and>
           map movedRef (calls (butlast evs)) =
             take (length evs - 1) [False, True, False, False, False, False]"
proof -
  from deleteBranch_result[of c branchName s2] obtain r w3 where
    d: "DeleteRef c (branchRefPrefix @ branchName) (fst s2) = (r, w3)"
    "deleteBranch c branchName s2 =
       ((case r of Ok u \<Rightarrow> Ok () | Err e \<Rightarrow> Err e | Panic p \<Rightarrow> Panic p),
        (w3, snd s2 @ [(DeleteRefReq (branchRefPrefix @ branchName),
                       (case r of Ok u \<Rightarrow> Done | Err e \<Rightarrow> Failed e | Panic p \<Rightarrow> Crashed p), w3)]))"
    by blast
  have "cherryPickLoop c branchName (picked @ commit # rest) headCommit s0 =
      ((case r of Panic p \<Rightarrow> Panic p | _ \<Rightarrow> Err err),
       (w3, snd s2 @ [(DeleteRefReq (branchRefPrefix @ branchName),
            (case r of Ok u \<Rightarrow> Done | Err e \<Rightarrow> Failed e | Panic p \<Rightarrow> Crashed p), w3)]))"
    using assms(5,6) d(2) by (cases r) (simp_all add: cherryPickLoop_append Wrap_def)
  then have "CherryPickCommitsOnBranch c branch (picked @ commit # rest) s =
      ((case r of Panic p \<Rightarrow> Panic p | _ \<Rightarrow> Err err),
       (w3, snd s2 @ [(DeleteRefReq (branchRefPrefix @ branchName),
            (case r of Ok u \<Rightarrow> Done | Err e \<Rightarrow> Failed e | Panic p \<Rightarrow> Crashed p), w3)]))"
    using assms(1-4) by (cases r) (simp_all add: CherryPickCommitsOnBranch_def)
  with d(1) cherryPickCommit_Err[OF assms(6)] show ?thesis
    by (auto simp: branchRefPrefix_def)
qed

theorem failing_step_stops_replay_witness:
  "Name release = Some ''release'' \<and> HeadCommit release = Some (RepositoryCommit (Some ''d'')) \<and>
   RepoSHA (RepositoryCommit (Some ''d'')) = Some ''d'' \<and>
   fst (getCommit host ''d'' (conflicting, [])) = Ok headD \<and>
   fst (cherryPickLoop host ''release'' [pickB] headD (snd (getCommit host ''d'' (conflicting, []))))
     = Ok (Commit (Some ''0000'') (Some ''Release'') (Some ''Mb'') []) \<and>
   fst (cherryPickCommit host ''release'' pickC (Commit (Some ''0000'') (Some ''Release'') (Some ''Mb'') [])
          (snd (cherryPickLoop host ''release'' [pickB] headD
                 (snd (getCommit host ''d'' (conflicting, []))))))
     = Err (ApiError ''409 Merge conflict'') \<and>
   fst (CherryPickCommitsOnBranch host release ([pickB] @ pickC # [pickA]) (conflicting, []))
     = Err (ApiError ''409 Merge conflict'') \<and>
   calls (drop 10 (snd (snd (CherryPickCommitsOnBranch host release ([pickB] @ pickC # [pickA])
                               (conflicting, [])))))
     = [(MergeReq ''release'' ''c'', Failed (ApiError ''409 Merge conflict'')),
        (DeleteRefReq ''refs/heads/release'', Done)]"
proof -
  let ?s0 = "snd (getCommit host ''d'' (conflicting, []))"
  let ?hc = "Commit (Some ''0000'') (Some ''Release'') (Some ''Mb'') []"
  let ?s1 = "snd (cherryPickLoop host ''release'' [pickB] headD ?s0)"
  let ?s2 = "snd (cherryPickCommit host ''release'' pickC ?hc ?s1)"
  have br: "Name release = Some ''release''"
    "HeadCommit release = Some (RepositoryCommit (Some ''d''))"
    "RepoSHA (RepositoryCommit (Some ''d'')) = Some ''d''"
    by (simp_all add: release_def)
  have g: "fst (getCommit host ''d'' (conflicting, [])) = Ok headD"
    by (simp add: run_defs)
  have l: "fst (cherryPickLoop host ''release'' [pickB] headD ?s0) = Ok ?hc"
    by (simp add: run_defs)
  have f: "fst (cherryPickCommit host ''release'' pickC ?hc ?s1) = Err (ApiError ''409 Merge conflict'')"
    by (simp add: run_defs)
  have r: "fst (CherryPickCommitsOnBranch host release ([pickB] @ pickC # [pickA]) (conflicting, []))
     = Err (ApiError ''409 Merge conflict'')"
    by (simp add: run_defs)
  have c: "calls (drop 10 (snd (snd (CherryPickCommitsOnBranch host release ([pickB] @ pickC # [pickA])
                               (conflicting, [])))))
     = [(MergeReq ''release'' ''c'', Failed (ApiError ''409 Merge conflict'')),
        (DeleteRefReq ''refs/heads/release'', Done)]"
    by (simp add: run_defs calls_def)
  from g have g': "getCommit host ''d'' (conflicting, []) = (Ok headD, ?s0)"
    by (metis prod.collapse)
  from l have l': "cherryPickLoop host ''release'' [pickB] headD ?s0 = (Ok ?hc, ?s1)"
    by (metis prod.collapse)
  from f have f': "cherryPickCommit host ''release'' pickC ?hc ?s1 = (Err (ApiError ''409 Merge conflict''), ?s2)"
    by (metis prod.collapse)
  from failing_step_stops_replay [OF br g' l' f', of "[pickA]"] br g l f r c
  show ?thesis by simp
qed


text \<open>
  C4: a successful \<open>cherryPickCommit\<close> has made exactly seven calls, in this order:
  it created the sibling commit (message ``temp'', the tree of the branch's head, the
  first parent of the commit to pick as its only parent); it set the branch reference
  to the sibling's SHA; it asked for the merge of the commit to pick into the branch,
  and read the merge commit back (both inside \<open>merge\<close>); it read the commit of the
  head's SHA again; it created the final commit (the message of the commit to pick, the
  tree of the merge commit, the commit just read as its only parent); and it set the
  branch reference to the final commit's SHA. It returns the merge tree and that SHA.
\<close>

theorem cherryPickCommit_sequence:
  assumes "cherryPickCommit c branchName cherryCommit headBranchCommit s = (Ok (mergeTree, sha), s')"
  shows "\<exists>cherryParent others cherrySHA message headSHA sibling mrg mergeCommit updatedCommit final evs.
           Parents cherryCommit = cherryParent # others \<and> SHA cherryCommit = Some cherrySHA \<and>
           Message cherryCommit = Some message \<and> SHA headBranchCommit = Some headSHA \<and>
           snd s' = snd s @ evs \<and>
           calls evs =
             [(CreateCommitReq (Commit None (Some ''temp'') (Tree headBranchCommit) [cherryParent]),
                 GotCommit sibling),
              (UpdateRefReq (''refs/heads/'' @ branchName) (GetSHA sibling) True, Done),
              (MergeReq branchName cherrySHA, GotRepositoryCommit mrg),
              (GetCommitReq (RepoGetSHA mrg), GotCommit mergeCommit),
              (GetCommitReq headSHA, GotCommit updatedCommit),
              (CreateCommitReq (Commit None (Some message) (Tree mergeCommit) [updatedCommit]),
                 GotCommit final),
              (UpdateRefReq (''refs/heads/'' @ branchName) (GetSHA final) True, Done)] \<and>
           mergeTree = Tree mergeCommit \<and> sha = GetSHA final"
proof -
  from assms obtain cherryParent others where p: "Parents cherryCommit = cherryParent # others"
    by (cases "Parents cherryCommit") (auto simp: cherryPickCommit_def index_def)
  from assms p obtain s1 cherrySHA mergeCommit s2 headSHA updatedCommit s3 message s4 where
    1: "createSiblingCommit c branchName headBranchCommit cherryParent s = (Ok (), s1)"
    and cs: "SHA cherryCommit = Some cherrySHA"
    and 2: "merge c branchName cherrySHA s1 = (Ok mergeCommit, s2)"
    and hs: "SHA headBranchCommit = Some headSHA"
    and 3: "getCommit c headSHA s2 = (Ok updatedCommit, s3)"
    and m: "Message cherryCommit = Some message"
    and 4: "createCommit c message (Tree mergeCommit) updatedCommit s3 = (Ok sha, s4)"
    and 5: "updateBranch c branchName sha s4 = (Ok (), s')"
    and t: "mergeTree = Tree mergeCommit"
    by (auto simp: cherryPickCommit_def index_def GetTree_def Let_def
        split: prod.splits result.splits option.splits)
  from createSiblingCommit_Ok[OF 1] merge_Ok[OF 2] getCommit_Ok[OF 3] createCommit_Ok[OF 4]
    updateBranch_Ok[OF 5] p cs hs m t
  show ?thesis
    by (auto simp: calls_def branchRefPrefix_def)
qed

theorem cherryPickCommit_sequence_witness:
  "fst (cherryPickCommit host ''release'' pickB headD (scenario, [])) = Ok (Some ''Mb'', ''0000'') \<and>
   (\<exists>cherryParent others cherrySHA message headSHA sibling mrg mergeCommit updatedCommit final evs.
      Parents pickB = cherryParent # others \<and> SHA pickB = Some cherrySHA \<and>
      Message pickB = Some message \<and> SHA headD = Some headSHA \<and>
      snd (snd (cherryPickCommit host ''release'' pickB headD (scenario, []))) = [] @ evs \<and>
      calls evs =
        [(CreateCommitReq (Commit None (Some ''temp'') (Tree headD) [cherryParent]),
            GotCommit sibling),
         (UpdateRefReq (''refs/heads/'' @ ''release'') (GetSHA sibling) True, Done),
         (MergeReq ''release'' cherrySHA, GotRepositoryCommit mrg),
         (GetCommitReq (RepoGetSHA mrg), GotCommit mergeCommit),
         (GetCommitReq headSHA, GotCommit updatedCommit),
         (CreateCommitReq (Commit None (Some message) (Tree mergeCommit) [updatedCommit]),
            GotCommit final),
         (UpdateRefReq (''refs/heads/'' @ ''release'') (GetSHA final) True, Done)] \<and>
      Some ''Mb'' = Tree mergeCommit \<and> ''0000'' = GetSHA final)"
proof -
  have run: "fst (cherryPickCommit host ''release'' pickB headD (scenario, [])) =
      Ok (Some ''Mb'', ''0000'')"
    by (simp add: run_defs)
  then have "cherryPickCommit host ''release'' pickB headD (scenario, []) =
      (Ok (Some ''Mb'', ''0000''), snd (cherryPickCommit host ''release'' pickB headD (scenario, [])))"
    by (metis prod.collapse)
  from cherryPickCommit_sequence [OF this] run show ?thesis by simp
qed

text \<open>
  C5: on the remote of the model (a store without a repeated SHA, where \<open>master\<close> and
  the source branch resolve), if some commit reachable from the source branch and not
  from \<open>master\<close> has a number of parents other than one, \<open>GetBranchCommits\<close> returns
  the error ``merge commits are not supported.'' and no list of commits.
\<close>

theorem GetBranchCommits_rejects_merge_commits:
  assumes "distinct (shas w)"
    and "resolve w ''master'' = Some b" and "resolve w branchName = Some h"
    and "\<exists>kv \<in> set (objects w). fst kv \<in> set (ahead w b h) \<and> length (objParents (snd kv)) \<noteq> 1"
  shows "\<exists>evs'. GetBranchCommits host branchName (w, evs) =
           Some (Err (Errorf ''merge commits are not supported.''), (w, evs @ evs'))"
  using GetBranchCommits_host[OF assms(1-3), of evs] assms(4) by auto

theorem GetBranchCommits_rejects_merge_commits_witness:
  "distinct (shas merged) \<and> resolve merged ''master'' = Some ''a'' \<and>
   resolve merged ''fix'' = Some ''m'' \<and>
   ahead merged ''a'' ''m'' = [''b'', ''x'', ''m''] \<and>
   list_ex (\<lambda>kv. fst kv \<in> set (ahead merged ''a'' ''m'') \<and> length (objParents (snd kv)) \<noteq> 1)
     (objects merged) \<and>
   (\<exists>evs'. GetBranchCommits host ''fix'' (merged, []) =
      Some (Err (Errorf ''merge commits are not supported.''), (merged, [] @ evs')))"
proof -
  have d: "distinct (shas merged)"
    by (simp add: merged_def shas_def)
  have r: "resolve merged ''master'' = Some ''a''" "resolve merged ''fix'' = Some ''m''"
    by (simp_all add: resolve_def merged_def branchRefPrefix_def)
  have a: "ahead merged ''a'' ''m'' = [''b'', ''x'', ''m'']"
    by (simp add: ahead_def ancestors_def merged_def shas_def)
  have p: "\<exists>kv \<in> set (objects merged). fst kv \<in> set (ahead merged ''a'' ''m'') \<and>
      length (objParents (snd kv)) \<noteq> 1"
    unfolding a by (simp add: merged_def)
  have l: "list_ex (\<lambda>kv. fst kv \<in> set (ahead merged ''a'' ''m'') \<and>
      length (objParents (snd kv)) \<noteq> 1) (objects merged)"
    unfolding a by (simp add: merged_def)
  from d r a l GetBranchCommits_rejects_merge_commits [OF d r p, of "[]"]
  show ?thesis by (intro conjI)
qed

text \<open>
  C6: with no commit to replay, \<open>CherryPickCommitsOnBranch\<close> on a branch with a name
  and a head SHA that the remote holds returns no error; the only call it makes reads
  the head commit, and the remote (its commits and its references) is as it was.
\<close>

theorem CherryPickCommitsOnBranch_empty:
  assumes "Name branch = Some branchName"
    and "HeadCommit branch = Some branchCommit"
    and "RepoSHA branchCommit = Some headSHA"
    and "map_of (objects w) headSHA = Some ob"
  shows "CherryPickCommitsOnBranch host branch [] (w, evs) =
           (Ok (), (w, evs @ [(GetCommitReq headSHA, GotCommit (asCommit (headSHA, ob)), w)]))"
  using assms
  by (simp add: CherryPickCommitsOnBranch_def getCommit_def Git_GetCommit_def perform_def
      host_def hostGetCommit_def)

theorem CherryPickCommitsOnBranch_empty_witness:
  "Name release = Some ''release'' \<and>
   HeadCommit release = Some (RepositoryCommit (Some ''d'')) \<and>
   RepoSHA (RepositoryCommit (Some ''d'')) = Some ''d'' \<and>
   map_of (objects scenario) ''d'' = Some \<lparr>objMessage = ''Release'', objTree = ''Td'', objParents = []\<rparr> \<and>
   CherryPickCommitsOnBranch host release [] (scenario, []) =
     (Ok (), (scenario, [(GetCommitReq ''d'',
        GotCommit (Commit (Some ''d'') (Some ''Release'') (Some ''Td'') []), scenario)]))"
  using CherryPickCommitsOnBranch_empty
          [of release "''release''" "RepositoryCommit (Some ''d'')" "''d''" scenario
              "\<lparr>objMessage = ''Release'', objTree = ''Td'', objParents = []\<rparr>" "[]"]
  by (simp add: release_def scenario_def asCommit_def)

text \<open>
  C7: in every run of \<open>CherryPickCommitsOnBranch\<close>, against any remote, each
  \<open>UpdateRef\<close> call comes right after a \<open>CreateCommit\<close> call that succeeded and
  sets the reference to the SHA of the commit that call returned. Against the remote
  of the model, a reference that is absent or points at a held commit before the run
  is so after every call of the run.
\<close>

theorem ref_updates_follow_creation:
  "updatesFollowCreation None (calls (added s (snd (CherryPickCommitsOnBranch c branch commits s)))) \<and>
   (pointsAtCommit w ref \<longrightarrow>
      (\<forall>ev \<in> set (snd (snd (CherryPickCommitsOnBranch host branch commits (w, [])))).
         pointsAtCommit (snd (snd ev)) ref))"
proof
  from CherryPickCommitsOnBranch_log[of c branch commits s]
  show "updatesFollowCreation None (calls (added s (snd (CherryPickCommitsOnBranch c branch commits s))))"
    by (auto simp: added_def)
next
  show "pointsAtCommit w ref \<longrightarrow>
      (\<forall>ev \<in> set (snd (snd (CherryPickCommitsOnBranch host branch commits (w, [])))).
         pointsAtCommit (snd (snd ev)) ref)"
  proof
    assume "pointsAtCommit w ref"
    then have "sound ref (w, [])" by (simp add: sound_def)
    then have "sound ref (snd (CherryPickCommitsOnBranch host branch commits (w, [])))"
      using CherryPickCommitsOnBranch_host_sound[of branch commits "(w, [])"] by (metis prod.collapse)
    then show "\<forall>ev \<in> set (snd (snd (CherryPickCommitsOnBranch host branch commits (w, [])))).
         pointsAtCommit (snd (snd ev)) ref"
      by (simp add: sound_def)
  qed
qed

theorem ref_updates_follow_creation_witness:
  "updatesFollowCreation None
     (calls (added (scenario, [])
        (snd (CherryPickCommitsOnBranch host release [pickB, pickC] (scenario, []))))) \<and>
   pointsAtCommit scenario ''refs/heads/release'' \<and>
   list_all (\<lambda>ev. pointsAtCommit (snd (snd ev)) ''refs/heads/release'')
     (snd (snd (CherryPickCommitsOnBranch host release [pickB, pickC] (scenario, [])))) \<and>
   length (snd (snd (CherryPickCommitsOnBranch host release [pickB, pickC] (scenario, [])))) = 15"
proof -
  have p: "pointsAtCommit scenario ''refs/heads/release''"
    by (simp add: pointsAtCommit_def scenario_defs)
  have n: "length (snd (snd (CherryPickCommitsOnBranch host release [pickB, pickC] (scenario, [])))) = 15"
    by (simp add: run_defs)
  from ref_updates_follow_creation
         [of "(scenario, [])" host release "[pickB, pickC]" scenario "''refs/heads/release''"] p n
  show ?thesis by (simp add: list_all_iff)
qed

text \<open>
  C8: whatever the remote and the branch name, a run of \<open>GetBranchCommits\<close> that
  returns makes at most one \<open>CompareCommits\<close> call, and its base is \<open>master\<close> and
  its head the branch name given; a run that returns a list of commits has made exactly
  that call.
\<close>

theorem mainline_is_master:
  assumes "GetBranchCommits c branchName s = Some (r, s')"
  shows "(comparisons (calls (added s s')) = [] \<or>
          comparisons (calls (added s s')) = [(''master'', branchName)]) \<and>
         (\<forall>commits. r = Ok commits \<longrightarrow>
            comparisons (calls (added s s')) = [(''master'', branchName)])"
proof -
  from assms obtain r1 s1 where l: "getBranchCommits c branchName s = Some (r1, s1)"
    by (auto simp: GetBranchCommits_def split: option.splits)
  from listPages_log[OF l[unfolded getBranchCommits_def]] obtain evs1 where
    e1: "snd s1 = snd s @ evs1" "comparisons (calls evs1) = []" by auto
  show ?thesis
  proof (cases r1)
    case (Ok repoCommits)
    obtain r2 s2 where cmp: "Repositories_CompareCommits c ''master'' branchName s1 = (r2, s2)"
      by (cases "Repositories_CompareCommits c ''master'' branchName s1")
    then obtain ev where e2: "snd s2 = snd s1 @ [ev]"
      "comparisons (calls [ev]) = [(''master'', branchName)]"
      by (auto simp: Repositories_CompareCommits_def perform_def calls_def split: prod.splits)
    show ?thesis
    proof (cases r2)
      case (Ok comparison)
      from repoLoop_log[of c repoCommits comparison "[]" s2] obtain evs3 where
        e3: "snd (snd (repoLoop c repoCommits comparison [] s2)) = snd s2 @ evs3"
        "comparisons (calls evs3) = []" by blast
      from assms l \<open>r1 = Ok repoCommits\<close> cmp Ok
      have "s' = snd (repoLoop c repoCommits comparison [] s2)"
        by (auto simp: GetBranchCommits_def)
      with e1(1) e2(1) e3(1) have "added s s' = evs1 @ [ev] @ evs3"
        by (simp add: added_def)
      moreover from e1(2) e2(2) e3(2)
      have "comparisons (calls (evs1 @ [ev] @ evs3)) = [(''master'', branchName)]"
        by (simp only: calls_append comparisons_append) simp
      ultimately have "comparisons (calls (added s s')) = [(''master'', branchName)]" by simp
      then show ?thesis by simp
    next
      case (Err e)
      with assms l \<open>r1 = Ok repoCommits\<close> cmp have "s' = s2" "r = Err (Wrap e)"
        by (auto simp: GetBranchCommits_def)
      with e1(1) e2(1) have "added s s' = evs1 @ [ev]" by (simp add: added_def)
      moreover from e1(2) e2(2)
      have "comparisons (calls (evs1 @ [ev])) = [(''master'', branchName)]"
        by (simp only: calls_append comparisons_append) simp
      ultimately show ?thesis using \<open>r = Err (Wrap e)\<close> by simp
    next
      case (Panic p)
      with assms l \<open>r1 = Ok repoCommits\<close> cmp have "s' = s2" "r = Panic p"
        by (auto simp: GetBranchCommits_def)
      with e1(1) e2(1) have "added s s' = evs1 @ [ev]" by (simp add: added_def)
      moreover from e1(2) e2(2)
      have "comparisons (calls (evs1 @ [ev])) = [(''master'', branchName)]"
        by (simp only: calls_append comparisons_append) simp
      ultimately show ?thesis using \<open>r = Panic p\<close> by simp
    qed
  next
    case (Err e)
    with assms l have "s' = s1" "r = Err (Wrap e)" by (auto simp: GetBranchCommits_def)
    with e1 show ?thesis by (simp add: added_def)
  next
    case (Panic p)
    with assms l have "s' = s1" "r = Panic p" by (auto simp: GetBranchCommits_def)
    with e1 show ?thesis by (simp add: added_def)
  qed
qed

theorem mainline_is_master_witness:
  "GetBranchCommits host ''fix'' (scenario, []) =
     Some (Ok [pickB, pickC],
       (scenario,
        [(ListCommitsReq ''fix'' 0 100,
            GotPage [RepositoryCommit (Some ''a''), RepositoryCommit (Some ''b''),
                     RepositoryCommit (Some ''c'')] 0, scenario),
         (CompareCommitsReq ''master'' ''fix'',
            GotComparison [RepositoryCommit (Some ''b''), RepositoryCommit (Some ''c'')], scenario),
         (GetCommitReq ''b'', GotCommit pickB, scenario),
         (GetCommitReq ''c'', GotCommit pickC, scenario)])) \<and>
   comparisons (calls (added (scenario, [])
     (scenario,
        [(ListCommitsReq ''fix'' 0 100,
            GotPage [RepositoryCommit (Some ''a''), RepositoryCommit (Some ''b''),
                     RepositoryCommit (Some ''c'')] 0, scenario),
         (CompareCommitsReq ''master'' ''fix'',
            GotComparison [RepositoryCommit (Some ''b''), RepositoryCommit (Some ''c'')], scenario),
         (GetCommitReq ''b'', GotCommit pickB, scenario),
         (GetCommitReq ''c'', GotCommit pickC, scenario)]))) = [(''master'', ''fix'')]"
proof -
  have run: "GetBranchCommits host ''fix'' (scenario, []) =
     Some (Ok [pickB, pickC],
       (scenario,
        [(ListCommitsReq ''fix'' 0 100,
            GotPage [RepositoryCommit (Some ''a''), RepositoryCommit (Some ''b''),
                     RepositoryCommit (Some ''c'')] 0, scenario),
         (CompareCommitsReq ''master'' ''fix'',
            GotComparison [RepositoryCommit (Some ''b''), RepositoryCommit (Some ''c'')], scenario),
         (GetCommitReq ''b'', GotCommit pickB, scenario),
         (GetCommitReq ''c'', GotCommit pickC, scenario)]))"
    unfolding GetBranchCommits_def getBranchCommits_def
    by (subst listPages.simps)
       (simp add: call_defs helper_defs host_def hostListCommits_def hostCompareCommits_def
          hostGetCommit_def resolve_def history_def ahead_def ancestors_def perPage_def scenario_defs)
  from mainline_is_master [OF run] run show ?thesis by simp
qed

text \<open>
  C9: \<open>CherryPickCommitsOnBranch\<close> checks no parent count. If every commit of the
  list has a parent, the index 0 of its parents is in bounds in every step. A commit
  without parents makes the index \<open>None\<close>: \<open>cherryPickCommit\<close> panics on it before
  any call, and so does \<open>CherryPickCommitsOnBranch\<close> when it comes to that commit,
  the commits before it having been replayed. On a commit with a parent
  \<open>cherryPickCommit\<close> gets past the index: its first call creates the sibling with
  that first parent.
\<close>

theorem first_parent_access:
  "((\<forall>commit \<in> set commits. Parents commit \<noteq> []) \<longrightarrow>
      (\<forall>commit \<in> set commits. index (Parents commit) 0 = Some (hd (Parents commit)))) \<and>
   (Parents commit = [] \<longrightarrow>
      index (Parents commit) 0 = None \<and>
      cherryPickCommit c branchName commit headCommit s = (Panic IndexOutOfRange, s)) \<and>
   (Name branch = Some branchName \<and> HeadCommit branch = Some branchCommit \<and>
    RepoSHA branchCommit = Some headSHA \<and> getCommit c headSHA s = (Ok headCommit, s0) \<and>
    cherryPickLoop c branchName picked headCommit s0 = (Ok headCommit', s1) \<and>
    Parents commit = [] \<longrightarrow>
      CherryPickCommitsOnBranch c branch (picked @ commit # rest) s = (Panic IndexOutOfRange, s1)) \<and>
   (Parents cherryCommit \<noteq> [] \<longrightarrow>
      (\<exists>evs. snd (snd (cherryPickCommit c branchName cherryCommit headCommit s)) = snd s @ evs \<and>
         map fst (take 1 (calls evs)) =
           [CreateCommitReq (Commit None (Some ''temp'') (Tree headCommit) [hd (Parents cherryCommit)])]))"
proof (intro conjI impI ballI)
  fix x assume "\<forall>commit \<in> set commits. Parents commit \<noteq> []" "x \<in> set commits"
  then have "Parents x \<noteq> []" by blast
  then show "index (Parents x) 0 = Some (hd (Parents x))"
    by (cases "Parents x") (simp_all add: index_def)
next
  assume "Parents commit = []"
  then show "index (Parents commit) 0 = None" by (simp add: index_def)
next
  assume "Parents commit = []"
  then show "cherryPickCommit c branchName commit headCommit s = (Panic IndexOutOfRange, s)"
    by (simp add: cherryPickCommit_def index_def)
next
  assume a: "Name branch = Some branchName \<and> HeadCommit branch = Some branchCommit \<and>
    RepoSHA branchCommit = Some headSHA \<and> getCommit c headSHA s = (Ok headCommit, s0) \<and>
    cherryPickLoop c branchName picked headCommit s0 = (Ok headCommit', s1) \<and>
    Parents commit = []"
  then have "cherryPickLoop c branchName (picked @ commit # rest) headCommit s0 =
      (Panic IndexOutOfRange, s1)"
    by (simp add: cherryPickLoop_append cherryPickCommit_def index_def)
  with a show "CherryPickCommitsOnBranch c branch (picked @ commit # rest) s =
      (Panic IndexOutOfRange, s1)"
    by (simp add: CherryPickCommitsOnBranch_def)
next
  assume "Parents cherryCommit \<noteq> []"
  then obtain p others where "Parents cherryCommit = p # others"
    by (cases "Parents cherryCommit") auto
  from cherryPickCommit_first_call[OF this, of c branchName headCommit s] this
  show "\<exists>evs. snd (snd (cherryPickCommit c branchName cherryCommit headCommit s)) = snd s @ evs \<and>
         map fst (take 1 (calls evs)) =
           [CreateCommitReq (Commit None (Some ''temp'') (Tree headCommit) [hd (Parents cherryCommit)])]"
    by simp
qed

theorem first_parent_access_witness:
  "list_all (\<lambda>commit. Parents commit \<noteq> []) [pickB, pickC] \<and>
   list_all (\<lambda>commit. index (Parents commit) 0 = Some (hd (Parents commit))) [pickB, pickC] \<and>
   Parents pickA = [] \<and> index (Parents pickA) 0 = None \<and>
   cherryPickCommit host ''release'' pickA headD (scenario, []) =
     (Panic IndexOutOfRange, (scenario, [])) \<and>
   getCommit host ''d'' (scenario, []) =
     (Ok headD, (scenario, [(GetCommitReq ''d'', GotCommit headD, scenario)])) \<and>
   CherryPickCommitsOnBranch host release ([] @ pickA # [pickC]) (scenario, []) =
     (Panic IndexOutOfRange, (scenario, [(GetCommitReq ''d'', GotCommit headD, scenario)])) \<and>
   Parents pickB \<noteq> [] \<and>
   (\<exists>evs. snd (snd (cherryPickCommit host ''release'' pickB headD (scenario, []))) =
           snd (scenario, []) @ evs \<and>
      map fst (take 1 (calls evs)) =
        [CreateCommitReq (Commit None (Some ''temp'') (Tree headD) [hd (Parents pickB)])])"
proof -
  have g: "getCommit host ''d'' (scenario, []) =
      (Ok headD, (scenario, [(GetCommitReq ''d'', GotCommit headD, scenario)]))"
    by (simp add: helper_defs call_defs host_defs scenario_defs)
  have a: "Parents pickA = []" "list_all (\<lambda>commit. Parents commit \<noteq> []) [pickB, pickC]"
    "Parents pickB \<noteq> []"
    by (simp_all add: scenario_defs)
  from first_parent_access
         [of "[pickB, pickC]" pickA host "''release''" headD "(scenario, [])" release
             "RepositoryCommit (Some ''d'')" "''d''"
             "(scenario, [(GetCommitReq ''d'', GotCommit headD, scenario)])" "[]" headD
             "(scenario, [(GetCommitReq ''d'', GotCommit headD, scenario)])" "[pickC]" pickB]
    g a
  show ?thesis by (simp add: list_all_iff release_def)
qed

text \<open>
  C10: \<open>CherryPickCommitsOnBranch\<close> checks the branch name and the SHA of the head
  commit, and answers a missing one with a NotFound error in the state it was called
  in: no call was logged, so no commit was created, no reference updated and no branch
  deleted. It does not check the head commit record itself. A named branch without that
  record has no head-commit SHA either, and there the second check reads the SHA
  through the missing record: the run panics, also before any call, instead of
  returning the NotFound error of that check. This holds for every remote, commit list
  and session.
\<close>

theorem CherryPickCommitsOnBranch_nil_head_panics:
  "CherryPickCommitsOnBranch c (Branch (Some ''release'') None) commits s =
     (Panic NilPointerDereference, s) \<and>
   CherryPickCommitsOnBranch c (Branch (Some ''release'') (Some (RepositoryCommit None))) commits s =
     (Err (NotFound ''branch release HEAD does not exist.''), s) \<and>
   CherryPickCommitsOnBranch c (Branch None None) commits s =
     (Err (NotFound ''branch name does not exist.''), s)"
  by (simp add: CherryPickCommitsOnBranch_def)

end
